theory Spec2Isabelle
  imports Main "HOL-Library.Word" "HOL-Library.List_Lexorder" "HOL-Library.Char_ord"
    "HOL-Library.Product_Lexorder"
begin

section \<open>Roast package registry: the Workers handlers of src/index.ts\<close>

text \<open>
  The registry keeps package metadata in a key-value namespace (\<open>PACKAGES\<close>), users and
  tokens in two more (\<open>USERS\<close>, \<open>TOKENS\<close>) and the tarballs in an object bucket
  (\<open>TARBALLS\<close>). Each handler of \<open>index.ts\<close> is embedded as a function from the
  environment to a response and the environment after the handler's writes. JSON
  serialisation is the identity on the records below. A string is a list of code units
  below 256 (the Latin-1 range of JavaScript's UTF-16 strings). A JavaScript number is a
  \<open>jsnumber\<close>: \<open>NaN\<close>, an infinity, or a finite value, which in this program is always an
  integer that a double represents.
\<close>

subsection \<open>Numbers\<close>

datatype jsnumber = NaN | NegInf | Fin int | PosInf

text \<open>The number of binary digits of a positive integer.\<close>

function bitlen :: "int \<Rightarrow> nat" where
  "bitlen n = (if n \<le> 0 then 0 else Suc (bitlen (n div 2)))"
  by pat_completeness auto
termination
  by (relation "measure nat") auto

declare bitlen.simps [simp del]

text \<open>
  The double nearest to a non-negative integer: 53 significant binary digits are kept,
  the rest rounded to nearest, a tie to the even significand.
\<close>

definition round_int :: "int \<Rightarrow> int" where
  "round_int n =
     (if bitlen n \<le> 53 then n
      else (let e = bitlen n - 53; q = n div 2 ^ e; r = n mod 2 ^ e; h = 2 ^ (e - 1)
            in (if h < r \<or> (r = h \<and> odd q) then q + 1 else q) * 2 ^ e))"

text \<open>The Number value of an integer; a magnitude that rounds to \<open>2^1024\<close> or more is infinite.\<close>

definition to_number :: "int \<Rightarrow> jsnumber" where
  "to_number i =
     (let m = round_int \<bar>i\<bar>
      in if 1024 < bitlen m then (if i < 0 then NegInf else PosInf)
         else Fin (if i < 0 then - m else m))"

text \<open>\<open>x - y\<close>: the exact difference of two finite numbers, rounded.\<close>

fun js_sub :: "jsnumber \<Rightarrow> jsnumber \<Rightarrow> jsnumber" where
  "js_sub (Fin a) (Fin b) = to_number (a - b)"
| "js_sub NaN y = NaN"
| "js_sub x NaN = NaN"
| "js_sub PosInf PosInf = NaN"
| "js_sub NegInf NegInf = NaN"
| "js_sub PosInf y = PosInf"
| "js_sub NegInf y = NegInf"
| "js_sub (Fin a) PosInf = NegInf"
| "js_sub (Fin a) NegInf = PosInf"

text \<open>\<open>x !== y\<close> on numbers: \<open>NaN\<close> differs from everything.\<close>

definition js_neq :: "jsnumber \<Rightarrow> jsnumber \<Rightarrow> bool" where
  "js_neq x y = (x = NaN \<or> y = NaN \<or> x \<noteq> y)"

text \<open>
  The sign of a number, as a comparison function's result is read: negative, zero or
  positive, \<open>NaN\<close> counting as zero.
\<close>

fun js_sign :: "jsnumber \<Rightarrow> int" where
  "js_sign NaN = 0"
| "js_sign NegInf = - 1"
| "js_sign (Fin i) = sgn i"
| "js_sign PosInf = 1"

text \<open>The numeric order of the numbers other than \<open>NaN\<close>, through a key in a linear order.\<close>

fun js_key :: "jsnumber \<Rightarrow> int \<times> int" where
  "js_key NaN = (2, 0)"
| "js_key NegInf = (- 1, 0)"
| "js_key (Fin i) = (0, i)"
| "js_key PosInf = (1, 0)"

definition js_less :: "jsnumber \<Rightarrow> jsnumber \<Rightarrow> bool" where
  "js_less x y = (js_key x < js_key y)"

subsection \<open>Version comparison (\<open>compareVersions\<close>, index.ts 449-460)\<close>

text \<open>\<open>String.prototype.split('.')\<close>: the pieces between the dots, empty pieces kept.\<close>

fun js_split :: "string \<Rightarrow> string list" where
  "js_split [] = [[]]"
| "js_split (c # cs) =
     (if c = CHR ''.'' then [] # js_split cs
      else (case js_split cs of [] \<Rightarrow> [[c]] | p # ps \<Rightarrow> (c # p) # ps))"

definition is_digit :: "char \<Rightarrow> bool" where
  "is_digit c = (c \<in> set ''0123456789'')"

text \<open>The white space and line terminators of \<open>StrWhiteSpaceChar\<close> below 256.\<close>

definition is_space :: "char \<Rightarrow> bool" where
  "is_space c =
     (c \<in> set [CHR 0x09, CHR 0x0A, CHR 0x0B, CHR 0x0C, CHR 0x0D, CHR 0x20, CHR 0xA0])"

definition digit_val :: "char \<Rightarrow> int" where
  "digit_val c = of_char c - 48"

definition digits_val :: "string \<Rightarrow> int" where
  "digits_val ds = foldl (\<lambda>acc c. 10 * acc + digit_val c) 0 ds"

text \<open>
  \<open>parseInt(p, 10)\<close>: leading white space is skipped, one sign is read, then the longest
  run of decimal digits, whose value is rounded to a number; \<open>NaN\<close> when no digit was
  read.
\<close>

definition parseInt :: "string \<Rightarrow> jsnumber" where
  "parseInt p =
     (let s = dropWhile is_space p;
          (sgn, r) = (case s of
                        [] \<Rightarrow> (1, [])
                      | c # cs \<Rightarrow> if c = CHR ''-'' then (- 1, cs)
                                  else if c = CHR ''+'' then (1, cs)
                                  else (1::int, s));
          ds = takeWhile is_digit r
      in if ds = [] then NaN else to_number (sgn * digits_val ds))"

text \<open>\<open>x || 0\<close> on a number: \<open>NaN\<close> and zero both give \<open>0\<close>.\<close>

definition or0 :: "jsnumber \<Rightarrow> jsnumber" where
  "or0 x = (if x = NaN \<or> x = Fin 0 then Fin 0 else x)"

definition version_parts :: "string \<Rightarrow> jsnumber list" where
  "version_parts a = map (\<lambda>p. or0 (parseInt p)) (js_split a)"

text \<open>\<open>parts[i] || 0\<close>: an index past the end reads \<open>undefined\<close>, which gives \<open>0\<close>.\<close>

definition part_at :: "jsnumber list \<Rightarrow> nat \<Rightarrow> jsnumber" where
  "part_at ps i = (if i < length ps then or0 (ps ! i) else Fin 0)"

function cmp_loop :: "nat \<Rightarrow> jsnumber list \<Rightarrow> jsnumber list \<Rightarrow> jsnumber" where
  "cmp_loop i partsA partsB =
     (if i < max (length partsA) (length partsB)
      then (let partA = part_at partsA i; partB = part_at partsB i
            in if js_neq partA partB then js_sub partA partB
               else cmp_loop (Suc i) partsA partsB)
      else Fin 0)"
  by pat_completeness auto
termination
  by (relation "measure (\<lambda>(i, partsA, partsB). max (length partsA) (length partsB) - i)") auto

declare cmp_loop.simps [simp del]

definition compareVersions :: "string \<Rightarrow> string \<Rightarrow> jsnumber" where
  "compareVersions a b = cmp_loop 0 (version_parts a) (version_parts b)"

text \<open>
  The components the format \<open>MAJOR.MINOR.PATCH[-prerelease]\<close> names, as
  \<open>compareVersions\<close> reads them: its first three numbers, a missing one being \<open>0\<close>.
\<close>

definition major :: "string \<Rightarrow> jsnumber" where
  "major a = part_at (version_parts a) 0"

definition minor :: "string \<Rightarrow> jsnumber" where
  "minor a = part_at (version_parts a) 1"

definition patch :: "string \<Rightarrow> jsnumber" where
  "patch a = part_at (version_parts a) 2"

text \<open>The version grammar of the publish handler: \<open>/^\d+\.\d+\.\d+(-[a-zA-Z0-9.]+)?$/\<close>.\<close>

definition is_alpha :: "char \<Rightarrow> bool" where
  "is_alpha c = (c \<in> set ''abcdefghijklmnopqrstuvwxyzABCDEFGHIJKLMNOPQRSTUVWXYZ'')"

definition is_lower :: "char \<Rightarrow> bool" where
  "is_lower c = (c \<in> set ''abcdefghijklmnopqrstuvwxyz'')"

definition valid_prerelease :: "string \<Rightarrow> bool" where
  "valid_prerelease r =
     (case r of
        [] \<Rightarrow> True
      | c # p \<Rightarrow> c = CHR ''-'' \<and> p \<noteq> [] \<and> list_all (\<lambda>x. is_alpha x \<or> is_digit x \<or> x = CHR ''.'') p)"

definition digits_then_dot :: "string \<Rightarrow> string option" where
  "digits_then_dot s =
     (if takeWhile is_digit s = [] then None
      else (case dropWhile is_digit s of
              [] \<Rightarrow> None
            | c # r \<Rightarrow> if c = CHR ''.'' then Some r else None))"

definition valid_version :: "string \<Rightarrow> bool" where
  "valid_version s =
     (case digits_then_dot s of
        None \<Rightarrow> False
      | Some r1 \<Rightarrow>
          (case digits_then_dot r1 of
             None \<Rightarrow> False
           | Some r2 \<Rightarrow> takeWhile is_digit r2 \<noteq> [] \<and> valid_prerelease (dropWhile is_digit r2)))"

text \<open>
  The exact components of a string of the version grammar: the decimal values of its
  three digit runs, read off the string itself.
\<close>

definition exact_triple :: "string \<Rightarrow> int \<times> int \<times> int" where
  "exact_triple s =
     (let d1 = takeWhile is_digit s; r1 = drop 1 (dropWhile is_digit s);
          d2 = takeWhile is_digit r1; r2 = drop 1 (dropWhile is_digit r1);
          d3 = takeWhile is_digit r2
      in (digits_val d1, digits_val d2, digits_val d3))"

text \<open>Lexicographic order on \<open>(major, minor, patch)\<close> triples.\<close>

definition triple_less :: "int \<times> int \<times> int \<Rightarrow> int \<times> int \<times> int \<Rightarrow> bool" where
  "triple_less s t =
     (case s of (a1, a2, a3) \<Rightarrow> case t of (b1, b2, b3) \<Rightarrow>
        a1 < b1 \<or> (a1 = b1 \<and> (a2 < b2 \<or> (a2 = b2 \<and> a3 < b3))))"

definition version_triple :: "string \<Rightarrow> jsnumber \<times> jsnumber \<times> jsnumber" where
  "version_triple a = (major a, minor a, patch a)"

text \<open>A string of the version grammar taken apart: three digit runs and a suffix.\<close>

definition version_string :: "string \<Rightarrow> string \<Rightarrow> string \<Rightarrow> string \<Rightarrow> string" where
  "version_string d1 d2 d3 p = d1 @ ''.'' @ d2 @ ''.'' @ d3 @ p"

definition digit_run :: "string \<Rightarrow> bool" where
  "digit_run d = (d \<noteq> [] \<and> list_all is_digit d)"

text \<open>A pre-release suffix: absent, or one that starts with \<open>-\<close>.\<close>

definition prerelease_suffix :: "string \<Rightarrow> bool" where
  "prerelease_suffix p = (case p of [] \<Rightarrow> True | c # s \<Rightarrow> c = CHR ''-'')"

text \<open>A pre-release suffix that is absent, or a \<open>-\<close> followed by characters other than a dot.\<close>

definition dotless_suffix :: "string \<Rightarrow> bool" where
  "dotless_suffix p = (case p of [] \<Rightarrow> True | c # s \<Rightarrow> c = CHR ''-'' \<and> CHR ''.'' \<notin> set s)"

subsection \<open>Platform primitives\<close>

text \<open>
  \<open>Array.prototype.sort(cmp)\<close> is a stable sort: \<open>a\<close> comes before \<open>b\<close> when
  \<open>cmp(a, b) < 0\<close>, and elements that compare \<open>0\<close> (or \<open>NaN\<close>) keep their order. For a
  consistent comparison function the result is the one a stable insertion sort gives.
\<close>

fun js_insort :: "('a \<Rightarrow> 'a \<Rightarrow> jsnumber) \<Rightarrow> 'a \<Rightarrow> 'a list \<Rightarrow> 'a list" where
  "js_insort cmp x [] = [x]"
| "js_insort cmp x (y # ys) =
     (if js_sign (cmp x y) \<le> 0 then x # y # ys else y # js_insort cmp x ys)"

definition js_sort :: "('a \<Rightarrow> 'a \<Rightarrow> jsnumber) \<Rightarrow> 'a list \<Rightarrow> 'a list" where
  "js_sort cmp xs = foldr (js_insort cmp) xs []"

text \<open>\<open>String.prototype.includes\<close>: the argument occurs as a contiguous run.\<close>

fun starts_with :: "string \<Rightarrow> string \<Rightarrow> bool" where
  "starts_with s [] = True"
| "starts_with [] (q # qs) = False"
| "starts_with (c # cs) (q # qs) = (c = q \<and> starts_with cs qs)"

fun js_includes :: "string \<Rightarrow> string \<Rightarrow> bool" where
  "js_includes [] q = (q = [])"
| "js_includes (c # cs) q = (starts_with (c # cs) q \<or> js_includes cs q)"

text \<open>
  \<open>String.prototype.toLowerCase\<close> on code units below 256: the capitals \<open>A-Z\<close> and the
  Latin-1 capitals \<open>0xC0-0xD6\<close>, \<open>0xD8-0xDE\<close> move up by 32.
\<close>

definition lower_char :: "char \<Rightarrow> char" where
  "lower_char c =
     (let n = (of_char c :: nat)
      in if (65 \<le> n \<and> n \<le> 90) \<or> (192 \<le> n \<and> n \<le> 214) \<or> (216 \<le> n \<and> n \<le> 222)
         then char_of (n + 32) else c)"

definition toLowerCase :: "string \<Rightarrow> string" where
  "toLowerCase s = map lower_char s"

text \<open>\<open>Array.prototype.find\<close> is \<^const>\<open>List.find\<close>, \<open>some\<close> is \<^const>\<open>list_ex\<close>.\<close>

text \<open>
  A key-value namespace (and the object bucket) is a list of bindings with \<open>get\<close>, \<open>put\<close>
  and \<open>list({prefix})\<close>; \<open>put\<close> replaces the binding of a key that is present. One call
  of \<open>list\<close> returns one page: the keys with the prefix in ascending order, 1000 of them
  at most. The handlers make one call and follow no cursor.
\<close>

type_synonym 'v kv = "(string \<times> 'v) list"

definition kv_get :: "'v kv \<Rightarrow> string \<Rightarrow> 'v option" where
  "kv_get s k = map_of s k"

fun kv_put :: "string \<Rightarrow> 'v \<Rightarrow> 'v kv \<Rightarrow> 'v kv" where
  "kv_put k v [] = [(k, v)]"
| "kv_put k v ((k', v') # s) = (if k' = k then (k, v) # s else (k', v') # kv_put k v s)"

definition keys_with_prefix :: "string \<Rightarrow> 'v kv \<Rightarrow> string list" where
  "keys_with_prefix pre s = remdups (filter (\<lambda>k. starts_with k pre) (map fst s))"

definition kv_list :: "string \<Rightarrow> 'v kv \<Rightarrow> string list" where
  "kv_list pre s = take 1000 (sort (keys_with_prefix pre s))"

subsection \<open>Types (index.ts 28-60)\<close>

type_synonym byte = "8 word"

record PackageVersion =
  version :: string
  published_at :: string
  yanked :: bool
  checksum :: string
  size_bytes :: nat
  download_url :: "string option"
  signature :: "string option"
  publisher_fingerprint :: "string option"

record PackageMetadata =
  name :: string
  description :: string
  authors :: "string list"
  license :: string
  repository :: "string option"
  homepage :: "string option"
  pkg_keywords :: "string list"
  versions :: "PackageVersion list"
  created_at :: string
  updated_at :: string
  downloads :: nat

record User =
  user_id :: string
  user_email :: string
  user_name :: string
  user_created_at :: string
  user_packages :: "string list"

text \<open>An object of the bucket: the bytes and the \<open>customMetadata\<close> written with them.\<close>

record R2Object =
  r2_body :: "byte list"
  r2_checksum :: string
  r2_publisher :: string
  r2_published_at :: string

record Env =
  PACKAGES :: "PackageMetadata kv"
  USERS :: "User kv"
  TOKENS :: "string kv"
  TARBALLS :: "R2Object kv"
  ADMIN_TOKEN :: "string option"

text \<open>
  A request: its headers under the names the handlers read, and its body. The handler
  may be sent any further headers; it reads none of them.
\<close>

record Request =
  headers :: "string \<Rightarrow> string option"
  arrayBuffer :: "byte list"

text \<open>
  The readings of \<open>new Date().toISOString()\<close> a handler makes, one field for each place
  of the source that reads the clock.
\<close>

record Clock =
  admin_created_at :: string
  new_created_at :: string
  new_updated_at :: string
  now_published_at :: string
  now_updated_at :: string

record Listing =
  l_name :: string
  l_description :: string
  l_latest :: string

datatype Body =
    ErrorJson string
  | MetadataJson PackageMetadata
  | SearchJson "PackageMetadata list"
  | ListJson "Listing list"
  | PublishedJson string string string
  | MessageJson string
  | Gzip "byte list" string string

datatype Response = Response (status: nat) (body: Body)

definition errorResponse :: "string \<Rightarrow> nat \<Rightarrow> Response" where
  "errorResponse message st = Response st (ErrorJson message)"

subsection \<open>Authentication (\<open>verifyToken\<close>, index.ts 108-130)\<close>

text \<open>
  \<open>USERS\<close> holds a user record under each user id. The \<open>email:\<close> index entries that
  registration writes beside them are never reached through a token and are left out.
\<close>

definition verifyToken :: "Clock \<Rightarrow> string \<Rightarrow> Env \<Rightarrow> User option" where
  "verifyToken clk token env =
     (if token = [] then None
      else if (case ADMIN_TOKEN env of None \<Rightarrow> False | Some t \<Rightarrow> t \<noteq> [] \<and> token = t)
      then Some \<lparr>user_id = ''admin'', user_email = ''admin@roast-lang.org'',
                 user_name = ''Admin'', user_created_at = admin_created_at clk,
                 user_packages = []\<rparr>
      else (case kv_get (TOKENS env) token of
              None \<Rightarrow> None
            | Some userId \<Rightarrow>
                if userId = [] then None
                else (case kv_get (USERS env) userId of
                        None \<Rightarrow> None
                      | Some user \<Rightarrow> Some user)))"

text \<open>
  The head of both mutating handlers (index.ts 225-235 and 344-354): the header must
  start with \<open>Bearer \<close>, and the rest of it must verify.
\<close>

definition authenticate :: "Clock \<Rightarrow> Request \<Rightarrow> Env \<Rightarrow> Response + User" where
  "authenticate clk request env =
     (case headers request ''Authorization'' of
        None \<Rightarrow> Inl (errorResponse ''Authentication required'' 401)
      | Some authHeader \<Rightarrow>
          if \<not> starts_with authHeader ''Bearer ''
          then Inl (errorResponse ''Authentication required'' 401)
          else (case verifyToken clk (drop 7 authHeader) env of
                  None \<Rightarrow> Inl (errorResponse ''Invalid authentication token'' 401)
                | Some user \<Rightarrow> Inr user))"

subsection \<open>Read handlers\<close>

definition download_path :: "string \<Rightarrow> string \<Rightarrow> string" where
  "download_path n v = ''/api/v1/packages/'' @ n @ ''/'' @ v @ ''/download''"

text \<open>
  \<open>handleGetPackage\<close> (index.ts 133-154): the download locators are written into the
  version records before the record, with its counter raised, is put back.
\<close>

definition handleGetPackage :: "string \<Rightarrow> Env \<Rightarrow> Response \<times> Env" where
  "handleGetPackage n env =
     (case kv_get (PACKAGES env) (''pkg:'' @ n) of
        None \<Rightarrow> (errorResponse (''Package '' @ [CHR 0x27] @ n @ [CHR 0x27] @ '' not found'') 404, env)
      | Some stored \<Rightarrow>
          let metadata = stored\<lparr>versions :=
                map (\<lambda>v. v\<lparr>download_url := Some (download_path n (version v))\<rparr>) (versions stored)\<rparr>
          in (Response 200 (MetadataJson metadata),
              env\<lparr>PACKAGES := kv_put (''pkg:'' @ n)
                     (metadata\<lparr>downloads := downloads metadata + 1\<rparr>) (PACKAGES env)\<rparr>))"

text \<open>The test of \<open>handleSearchPackages\<close> (index.ts 170-174).\<close>

definition search_match :: "string \<Rightarrow> PackageMetadata \<Rightarrow> bool" where
  "search_match queryLower metadata =
     (js_includes (toLowerCase (name metadata)) queryLower
      \<or> js_includes (toLowerCase (description metadata)) queryLower
      \<or> list_ex (\<lambda>k. js_includes (toLowerCase k) queryLower) (pkg_keywords metadata))"

definition handleSearchPackages :: "string \<Rightarrow> Env \<Rightarrow> Response" where
  "handleSearchPackages query env =
     (let queryLower = toLowerCase query;
          list = kv_list ''pkg:'' (PACKAGES env);
          results = foldl (\<lambda>results key.
                       case kv_get (PACKAGES env) key of
                         None \<Rightarrow> results
                       | Some metadata \<Rightarrow>
                           if search_match queryLower metadata then results @ [metadata]
                           else results) [] list
      in Response 200 (SearchJson results))"

definition handleDownloadPackage :: "string \<Rightarrow> string \<Rightarrow> Env \<Rightarrow> Response" where
  "handleDownloadPackage n ver env =
     (case kv_get (PACKAGES env) (''pkg:'' @ n) of
        None \<Rightarrow> errorResponse (''Package '' @ [CHR 0x27] @ n @ [CHR 0x27] @ '' not found'') 404
      | Some metadata \<Rightarrow>
          (case find (\<lambda>v. version v = ver) (versions metadata) of
             None \<Rightarrow> errorResponse (''Version '' @ [CHR 0x27] @ ver @ [CHR 0x27]
                        @ '' not found for '' @ [CHR 0x27] @ n @ [CHR 0x27]) 404
           | Some versionInfo \<Rightarrow>
               if yanked versionInfo
               then errorResponse (''Version '' @ [CHR 0x27] @ ver @ [CHR 0x27] @ '' has been yanked'') 410
               else (case kv_get (TARBALLS env) (n @ ''/'' @ ver @ ''.tar.gz'') of
                       None \<Rightarrow> errorResponse ''Package tarball not found'' 404
                     | Some tarball \<Rightarrow>
                         Response 200 (Gzip (r2_body tarball)
                           (''attachment; filename='' @ [CHR 0x22] @ n @ ''-'' @ ver @ ''.tar.gz'' @ [CHR 0x22])
                           (checksum versionInfo)))))"

text \<open>\<open>latestVersion?.version || 'none'\<close> (index.ts 394-399).\<close>

definition latest_of :: "PackageMetadata \<Rightarrow> string" where
  "latest_of metadata =
     (case find (\<lambda>v. \<not> yanked v) (versions metadata) of
        None \<Rightarrow> ''none''
      | Some latestVersion \<Rightarrow> if version latestVersion = [] then ''none'' else version latestVersion)"

definition handleListPackages :: "Env \<Rightarrow> Response" where
  "handleListPackages env =
     (let list = kv_list ''pkg:'' (PACKAGES env);
          packages = foldl (\<lambda>packages key.
                       case kv_get (PACKAGES env) key of
                         None \<Rightarrow> packages
                       | Some metadata \<Rightarrow>
                           packages @ [\<lparr>l_name = name metadata,
                                        l_description = description metadata,
                                        l_latest = latest_of metadata\<rparr>]) [] list
      in Response 200 (ListJson packages))"

subsection \<open>Publishing (\<open>handlePublishPackage\<close>, index.ts 220-334)\<close>

text \<open>The package-name grammar: \<open>/^[a-z][a-z0-9_-]*$/\<close>.\<close>

definition valid_name :: "string \<Rightarrow> bool" where
  "valid_name s =
     (case s of
        [] \<Rightarrow> False
      | c # cs \<Rightarrow> is_lower c \<and>
          list_all (\<lambda>x. is_lower x \<or> is_digit x \<or> x = CHR ''_'' \<or> x = CHR ''-'') cs)"

text \<open>\<open>h || ''\<close> and \<open>h || undefined\<close> on a header value that may be absent.\<close>

definition or_empty :: "string option \<Rightarrow> string" where
  "or_empty h = (case h of None \<Rightarrow> [] | Some v \<Rightarrow> v)"

definition or_undefined :: "string option \<Rightarrow> string option" where
  "or_undefined h = (case h of None \<Rightarrow> None | Some v \<Rightarrow> if v = [] then None else Some v)"

text \<open>The record of a package that does not exist yet (index.ts 283-293).\<close>

definition new_package :: "Clock \<Rightarrow> User \<Rightarrow> string \<Rightarrow> string \<Rightarrow> PackageMetadata" where
  "new_package clk user packageName packageDescription =
     \<lparr>name = packageName, description = packageDescription, authors = [user_name user],
      license = ''MIT'', repository = None, homepage = None, pkg_keywords = [],
      versions = [], created_at = new_created_at clk, updated_at = new_updated_at clk,
      downloads = 0\<rparr>"

text \<open>
  Adding the version (index.ts 296-309): the new record is pushed, the list sorted with
  \<open>compareVersions(b.version, a.version)\<close>, and \<open>updated_at\<close> set.
\<close>

definition add_version ::
  "Clock \<Rightarrow> string \<Rightarrow> string option \<Rightarrow> string option \<Rightarrow> byte list
     \<Rightarrow> string \<Rightarrow> PackageMetadata \<Rightarrow> PackageMetadata" where
  "add_version clk packageVersion sig fingerprint tarball chk metadata =
     (let newVersion = \<lparr>version = packageVersion, published_at = now_published_at clk,
                         yanked = False, checksum = chk, size_bytes = length tarball,
                         download_url = None, signature = or_undefined sig,
                         publisher_fingerprint = or_undefined fingerprint\<rparr>
      in metadata\<lparr>versions :=
                     js_sort (\<lambda>a b. compareVersions (version b) (version a))
                       (versions metadata @ [newVersion]),
                   updated_at := now_updated_at clk\<rparr>)"

text \<open>
  Storing (index.ts 311-333): the tarball is put, then the metadata, then the user when
  the package is new to the user's list.
\<close>

definition store_publish ::
  "Clock \<Rightarrow> User \<Rightarrow> string \<Rightarrow> string \<Rightarrow> byte list \<Rightarrow> string \<Rightarrow> PackageMetadata \<Rightarrow> Env
     \<Rightarrow> Response \<times> Env" where
  "store_publish clk user packageName packageVersion tarball chk metadata env =
     (let env1 = env\<lparr>TARBALLS := kv_put (packageName @ ''/'' @ packageVersion @ ''.tar.gz'')
                        \<lparr>r2_body = tarball, r2_checksum = chk, r2_publisher = user_id user,
                         r2_published_at = now_published_at clk\<rparr> (TARBALLS env)\<rparr>;
          env2 = env1\<lparr>PACKAGES := kv_put (''pkg:'' @ packageName) metadata (PACKAGES env1)\<rparr>;
          env3 = (if packageName \<notin> set (user_packages user)
                  then env2\<lparr>USERS := kv_put (user_id user)
                         (user\<lparr>user_packages := user_packages user @ [packageName]\<rparr>) (USERS env2)\<rparr>
                  else env2)
      in (Response 201 (PublishedJson (''Published '' @ packageName @ ''@'' @ packageVersion) chk
            (download_path packageName packageVersion)), env3))"

definition handlePublishPackage ::
  "(byte list \<Rightarrow> string) \<Rightarrow> Clock \<Rightarrow> Request \<Rightarrow> Env \<Rightarrow> Response \<times> Env" where
  "handlePublishPackage hashData clk request env =
     (case authenticate clk request env of
        Inl resp \<Rightarrow> (resp, env)
      | Inr user \<Rightarrow>
          let tarball = arrayBuffer request in
          if length tarball = 0 then (errorResponse ''Empty package tarball'' 400, env)
          else
            let packageName = or_empty (headers request ''X-Package-Name'');
                packageVersion = or_empty (headers request ''X-Package-Version'');
                packageDescription = or_empty (headers request ''X-Package-Description'');
                sig = headers request ''X-Package-Signature'';
                fingerprint = headers request ''X-Publisher-Fingerprint''
            in
            if packageName = [] \<or> packageVersion = []
            then (errorResponse ''Missing X-Package-Name or X-Package-Version header'' 400, env)
            else if \<not> valid_name packageName
            then (errorResponse ''Invalid package name. Must start with lowercase letter and contain only lowercase letters, numbers, underscores, and hyphens.'' 400, env)
            else if \<not> valid_version packageVersion
            then (errorResponse ''Invalid version format. Expected semver (e.g., 1.0.0)'' 400, env)
            else
              let chk = hashData tarball in
              (case kv_get (PACKAGES env) (''pkg:'' @ packageName) of
                 Some existing \<Rightarrow>
                   if list_ex (\<lambda>v. version v = packageVersion) (versions existing)
                   then (errorResponse (''Version '' @ packageVersion @ '' already exists'') 409, env)
                   else store_publish clk user packageName packageVersion tarball chk
                          (add_version clk packageVersion sig fingerprint
                             tarball chk existing) env
               | None \<Rightarrow>
                   store_publish clk user packageName packageVersion tarball chk
                     (add_version clk packageVersion sig fingerprint
                        tarball chk (new_package clk user packageName packageDescription)) env))"

subsection \<open>Yanking (\<open>handleYankVersion\<close>, index.ts 336-382)\<close>

text \<open>\<open>find\<close> returns the first record with the version; its \<open>yanked\<close> field is assigned in place.\<close>

fun set_yanked :: "string \<Rightarrow> bool \<Rightarrow> PackageVersion list \<Rightarrow> PackageVersion list" where
  "set_yanked ver yank [] = []"
| "set_yanked ver yank (v # vs) =
     (if version v = ver then v\<lparr>yanked := yank\<rparr> # vs else v # set_yanked ver yank vs)"

definition handleYankVersion ::
  "string \<Rightarrow> string \<Rightarrow> bool \<Rightarrow> Clock \<Rightarrow> Request \<Rightarrow> Env \<Rightarrow> Response \<times> Env" where
  "handleYankVersion n ver yank clk request env =
     (case authenticate clk request env of
        Inl resp \<Rightarrow> (resp, env)
      | Inr user \<Rightarrow>
          (case kv_get (PACKAGES env) (''pkg:'' @ n) of
             None \<Rightarrow> (errorResponse (''Package '' @ [CHR 0x27] @ n @ [CHR 0x27] @ '' not found'') 404, env)
           | Some metadata \<Rightarrow>
               (case find (\<lambda>v. version v = ver) (versions metadata) of
                  None \<Rightarrow> (errorResponse (''Version '' @ [CHR 0x27] @ ver @ [CHR 0x27] @ '' not found'') 404, env)
                | Some versionInfo \<Rightarrow>
                    if user_id user \<noteq> ''admin'' \<and> n \<notin> set (user_packages user)
                    then (errorResponse ''Not authorized to modify this package'' 403, env)
                    else
                      (Response 200 (MessageJson ((if yank then ''Yanked'' else ''Unyanked'')
                                       @ '' '' @ n @ ''@'' @ ver)),
                       env\<lparr>PACKAGES := kv_put (''pkg:'' @ n)
                              (metadata\<lparr>versions := set_yanked ver yank (versions metadata),
                                        updated_at := now_updated_at clk\<rparr>) (PACKAGES env)\<rparr>))))"

text \<open>A run of publish requests, one after the other.\<close>

fun publish_all ::
  "(byte list \<Rightarrow> string) \<Rightarrow> (Clock \<times> Request) list \<Rightarrow> Env \<Rightarrow> Response list \<times> Env" where
  "publish_all hashData [] env = ([], env)"
| "publish_all hashData ((clk, request) # rest) env =
     (case handlePublishPackage hashData clk request env of
        (resp, env1) \<Rightarrow>
          (case publish_all hashData rest env1 of
             (resps, env2) \<Rightarrow> (resp # resps, env2)))"

subsection \<open>Notions the properties are stated with\<close>

text \<open>The name and version a publish request carries.\<close>

definition requested_name :: "Request \<Rightarrow> string" where
  "requested_name request = or_empty (headers request ''X-Package-Name'')"

definition requested_version :: "Request \<Rightarrow> string" where
  "requested_version request = or_empty (headers request ''X-Package-Version'')"

text \<open>The version list a publish starts from: the stored one, or none for a new package.\<close>

definition versions_before :: "Env \<Rightarrow> string \<Rightarrow> PackageVersion list" where
  "versions_before env n =
     (case kv_get (PACKAGES env) (''pkg:'' @ n) of None \<Rightarrow> [] | Some m \<Rightarrow> versions m)"

text \<open>Sorted descending: no record is followed by one that compares greater.\<close>

definition sorted_desc :: "PackageVersion list \<Rightarrow> bool" where
  "sorted_desc vs =
     sorted_wrt (\<lambda>a b. js_sign (compareVersions (version a) (version b)) \<ge> 0) vs"

text \<open>\<open>q\<close> is a substring of \<open>s\<close>.\<close>

definition substring_of :: "string \<Rightarrow> string \<Rightarrow> bool" where
  "substring_of q s = (\<exists>pre post. s = pre @ q @ post)"

text \<open>The entry of the listing that belongs to a package record.\<close>

definition listing_of :: "PackageMetadata \<Rightarrow> Listing" where
  "listing_of p = \<lparr>l_name = name p, l_description = description p, l_latest = latest_of p\<rparr>"

text \<open>The package records of the store: those bound to a key that starts with \<open>pkg:\<close>.\<close>

definition stored_packages :: "Env \<Rightarrow> PackageMetadata set" where
  "stored_packages env =
     {m. \<exists>k. starts_with k ''pkg:'' \<and> kv_get (PACKAGES env) k = Some m}"

subsection \<open>A small registry for concrete runs\<close>

definition example_hash :: "byte list \<Rightarrow> string" where
  "example_hash bs = map (\<lambda>b. if b = 0 then CHR ''0'' else CHR ''f'') bs"

definition example_clock :: "string \<Rightarrow> Clock" where
  "example_clock t =
     \<lparr>admin_created_at = t, new_created_at = t, new_updated_at = t,
      now_published_at = t, now_updated_at = t\<rparr>"

definition alice :: User where
  "alice = \<lparr>user_id = ''u1'', user_email = ''alice@example.org'', user_name = ''Alice'',
            user_created_at = ''2024-01-01'', user_packages = [''json-lib'']\<rparr>"

definition bob :: User where
  "bob = \<lparr>user_id = ''u2'', user_email = ''bob@example.org'', user_name = ''Bob'',
          user_created_at = ''2024-01-02'', user_packages = []\<rparr>"

definition json_lib_2 :: PackageVersion where
  "json_lib_2 = \<lparr>version = ''2.0.0'', published_at = ''2024-02-01'', yanked = True,
                 checksum = ''ff'', size_bytes = 2, download_url = None, signature = None,
                 publisher_fingerprint = None\<rparr>"

definition json_lib_1 :: PackageVersion where
  "json_lib_1 = \<lparr>version = ''1.0.0'', published_at = ''2024-01-05'', yanked = False,
                 checksum = ''f'', size_bytes = 1, download_url = None, signature = None,
                 publisher_fingerprint = None\<rparr>"

definition json_lib :: PackageMetadata where
  "json_lib = \<lparr>name = ''json-lib'', description = ''A JSON Parser'', authors = [''Alice''],
               license = ''MIT'', repository = None, homepage = None,
               pkg_keywords = [''Serde''], versions = [json_lib_2, json_lib_1],
               created_at = ''2024-01-05'', updated_at = ''2024-02-01'', downloads = 7\<rparr>"

definition http_kit :: PackageMetadata where
  "http_kit = \<lparr>name = ''http-kit'', description = ''HTTP client'', authors = [''Alice''],
               license = ''MIT'', repository = None, homepage = None,
               pkg_keywords = [''network'', ''JSON-api''], versions = [json_lib_1],
               created_at = ''2024-03-01'', updated_at = ''2024-03-01'', downloads = 0\<rparr>"

definition env0 :: Env where
  "env0 = \<lparr>PACKAGES = [(''pkg:json-lib'', json_lib), (''pkg:http-kit'', http_kit)],
           USERS = [(''u1'', alice), (''u2'', bob)],
           TOKENS = [(''tok-alice'', ''u1''), (''tok-bob'', ''u2'')],
           TARBALLS = [(''json-lib/1.0.0.tar.gz'',
                         \<lparr>r2_body = [1], r2_checksum = ''f'', r2_publisher = ''u1'',
                          r2_published_at = ''2024-01-05''\<rparr>),
                       (''json-lib/2.0.0.tar.gz'',
                         \<lparr>r2_body = [1, 2], r2_checksum = ''ff'', r2_publisher = ''u1'',
                          r2_published_at = ''2024-02-01''\<rparr>)],
           ADMIN_TOKEN = Some ''admin-secret''\<rparr>"

text \<open>A request with a bearer token and nothing else.\<close>

definition auth_request :: "string \<Rightarrow> Request" where
  "auth_request token =
     \<lparr>headers = [''Authorization'' \<mapsto> ''Bearer '' @ token], arrayBuffer = []\<rparr>"

text \<open>A publish request; the client also sends a licence and keywords of its own.\<close>

definition publish_request :: "string \<Rightarrow> string \<Rightarrow> string \<Rightarrow> byte list \<Rightarrow> Request" where
  "publish_request token n v tarball =
     \<lparr>headers = [''Authorization'' \<mapsto> ''Bearer '' @ token, ''X-Package-Name'' \<mapsto> n,
                 ''X-Package-Version'' \<mapsto> v, ''X-Package-Description'' \<mapsto> ''a package'',
                 ''X-Package-License'' \<mapsto> ''GPL-3.0'', ''X-Package-Keywords'' \<mapsto> ''fast''],
      arrayBuffer = tarball\<rparr>"

text \<open>
  A registry of 1001 packages; the names are \<open>ab\<close>, \<open>abb\<close>, and so on: one to 32 letters
  \<open>a\<close>, then one to 32 letters \<open>b\<close>.
\<close>

definition big_name :: "nat \<Rightarrow> string" where
  "big_name i = replicate (Suc (i div 32)) CHR ''a'' @ replicate (Suc (i mod 32)) CHR ''b''"

definition big_pkg :: "nat \<Rightarrow> PackageMetadata" where
  "big_pkg i = \<lparr>name = big_name i, description = [], authors = [''Alice''],
                license = ''MIT'', repository = None, homepage = None, pkg_keywords = [],
                versions = [json_lib_1], created_at = ''2024-03-01'',
                updated_at = ''2024-03-01'', downloads = 0\<rparr>"

definition big_store :: "nat \<Rightarrow> PackageMetadata kv" where
  "big_store n = map (\<lambda>i. (''pkg:'' @ big_name i, big_pkg i)) [0..<n]"

definition big_env :: Env where
  "big_env = \<lparr>PACKAGES = big_store 1001, USERS = [], TOKENS = [], TARBALLS = [],
              ADMIN_TOKEN = None\<rparr>"

definition example_reqs :: "(Clock \<times> Request) list" where
  "example_reqs =
     [(example_clock ''2025-01-01'', publish_request ''tok-alice'' ''yaml-lib'' ''1.2.0'' [1]),
      (example_clock ''2025-01-02'', publish_request ''tok-alice'' ''yaml-lib'' ''1.10.0'' [2, 0])]"

section \<open>Properties\<close>

subsection \<open>Numbers\<close>

lemma bitlen_nonpos: "n \<le> 0 \<Longrightarrow> bitlen n = 0"
  by (simp add: bitlen.simps [of n])

lemma bitlen_pos: "0 < n \<Longrightarrow> 2 ^ (bitlen n - 1) \<le> n"
proof (induction n rule: bitlen.induct)
  case (1 n)
  show ?case
  proof (cases "n div 2 \<le> 0")
    case True
    then have "bitlen (n div 2) = 0" by (rule bitlen_nonpos)
    with 1(2) show ?thesis by (simp add: bitlen.simps [of n])
  next
    case False
    then have "2 ^ (bitlen (n div 2) - 1) \<le> n div 2" using 1 by simp
    moreover have "0 < bitlen (n div 2)" using False by (simp add: bitlen.simps [of "n div 2"])
    ultimately have "2 ^ bitlen (n div 2) \<le> 2 * (n div 2)"
      by (cases "bitlen (n div 2)") auto
    then have "2 ^ bitlen (n div 2) \<le> n" by linarith
    with 1(2) show ?thesis by (simp add: bitlen.simps [of n])
  qed
qed

lemma bitlen_less: "n < 2 ^ bitlen n"
proof (induction n rule: bitlen.induct)
  case (1 n)
  show ?case
  proof (cases "n \<le> 0")
    case True
    have "(0::int) < 2 ^ bitlen n" by simp
    with True show ?thesis by linarith
  next
    case False
    with 1 have "n div 2 < 2 ^ bitlen (n div 2)" by simp
    then have "n < 2 * 2 ^ bitlen (n div 2)" by linarith
    with False show ?thesis by (simp add: bitlen.simps [of n])
  qed
qed

lemma bitlen_le_iff: "bitlen n \<le> k \<longleftrightarrow> n < 2 ^ k"
proof
  assume "bitlen n \<le> k"
  then have "(2::int) ^ bitlen n \<le> 2 ^ k" by simp
  with bitlen_less [of n] show "n < 2 ^ k" by linarith
next
  assume a: "n < 2 ^ k"
  show "bitlen n \<le> k"
  proof (cases "n \<le> 0")
    case True
    then show ?thesis by (simp add: bitlen_nonpos)
  next
    case False
    then have "2 ^ (bitlen n - 1) \<le> n" by (intro bitlen_pos) simp
    with a have "(2::int) ^ (bitlen n - 1) < 2 ^ k" by linarith
    then have "bitlen n - 1 < k" by (rule power_less_imp_less_exp [rotated]) simp
    then show ?thesis by simp
  qed
qed

lemma round_int_small: "n < 2 ^ 53 \<Longrightarrow> round_int n = n"
  by (simp add: round_int_def bitlen_le_iff)

lemma round_int_pos: "0 < n \<Longrightarrow> 0 < round_int n"
proof (cases "bitlen n \<le> 53")
  case True
  then show "0 < n \<Longrightarrow> 0 < round_int n" by (simp add: round_int_def)
next
  case False
  assume n: "0 < n"
  have "(2::int) ^ (bitlen n - 53) \<le> 2 ^ (bitlen n - 1)" by (intro power_increasing) simp_all
  with bitlen_pos [OF n] have "2 ^ (bitlen n - 53) \<le> n" by linarith
  then have "0 < n div 2 ^ (bitlen n - 53)"
    by (simp add: pos_imp_zdiv_pos_iff)
  then have "0 < (if 2 ^ (bitlen n - 53 - 1) < n mod 2 ^ (bitlen n - 53)
        \<or> (n mod 2 ^ (bitlen n - 53) = 2 ^ (bitlen n - 53 - 1) \<and> odd (n div 2 ^ (bitlen n - 53)))
      then n div 2 ^ (bitlen n - 53) + 1 else n div 2 ^ (bitlen n - 53)) * 2 ^ (bitlen n - 53)"
    by (simp add: zero_less_mult_iff)
  with False show "0 < round_int n" by (simp add: round_int_def Let_def)
qed

text \<open>Below \<open>2^53\<close> the conversion is exact.\<close>

lemma to_number_small: "\<bar>i\<bar> < 2 ^ 53 \<Longrightarrow> to_number i = Fin i"
proof -
  assume a: "\<bar>i\<bar> < 2 ^ 53"
  then have r: "round_int \<bar>i\<bar> = \<bar>i\<bar>" by (rule round_int_small)
  have "(2::int) ^ 53 \<le> 2 ^ 1024" by (intro power_increasing) simp_all
  with a have "\<bar>i\<bar> < 2 ^ 1024" by linarith
  then have "bitlen \<bar>i\<bar> \<le> 1024" by (simp only: bitlen_le_iff)
  then show ?thesis by (simp add: to_number_def r Let_def)
qed

text \<open>Rounding keeps the sign.\<close>

lemma js_sign_to_number: "js_sign (to_number i) = sgn i"
proof -
  have "0 < round_int \<bar>i\<bar>" if "i \<noteq> 0" using that by (intro round_int_pos) simp
  moreover have "round_int \<bar>i\<bar> = 0" if "i = 0" using that by (simp add: round_int_small)
  ultimately show ?thesis
    by (cases "i = 0") (auto simp: to_number_def Let_def sgn_if bitlen_nonpos)
qed

lemma to_number_not_NaN: "to_number i \<noteq> NaN"
  by (simp add: to_number_def Let_def)

lemma js_sign_sub:
  "x \<noteq> NaN \<Longrightarrow> y \<noteq> NaN \<Longrightarrow>
     js_sign (js_sub x y) = (if js_key x < js_key y then - 1 else if js_key x = js_key y then 0 else 1)"
  by (cases x; cases y) (auto simp: js_sign_to_number sgn_if)

lemma js_key_inj: "x \<noteq> NaN \<Longrightarrow> y \<noteq> NaN \<Longrightarrow> js_key x = js_key y \<longleftrightarrow> x = y"
  by (cases x; cases y) auto

lemma js_sign_zero_sub:
  "x \<noteq> NaN \<Longrightarrow> y \<noteq> NaN \<Longrightarrow> x \<noteq> y \<Longrightarrow> js_sign (js_sub x y) \<noteq> 0"
  by (simp add: js_sign_sub js_key_inj)

lemma or0_not_NaN: "or0 x \<noteq> NaN"
  by (simp add: or0_def)

lemma part_at_not_NaN: "part_at ps i \<noteq> NaN"
  by (simp add: part_at_def or0_not_NaN)

lemma part_at_beyond: "length ps \<le> i \<Longrightarrow> part_at ps i = Fin 0"
  by (simp add: part_at_def)

lemma js_neq_part_at: "js_neq (part_at A i) (part_at B i) \<longleftrightarrow> part_at A i \<noteq> part_at B i"
  by (simp add: js_neq_def part_at_not_NaN)

lemma js_less_part_at:
  "js_less (part_at A i) (part_at B i) \<or> part_at A i = part_at B i
     \<or> js_less (part_at B i) (part_at A i)"
  using js_key_inj [OF part_at_not_NaN part_at_not_NaN, of A i B i]
  by (auto simp: js_less_def)

lemma js_less_irrefl: "\<not> js_less x x"
  by (simp add: js_less_def)

lemma js_less_trans: "js_less x y \<Longrightarrow> js_less y z \<Longrightarrow> js_less x z"
  unfolding js_less_def by (rule less_trans)

lemma js_less_asym: "js_less x y \<Longrightarrow> \<not> js_less y x"
  unfolding js_less_def by (rule less_not_sym)

lemma js_sign_sub_part_at:
  "js_sign (js_sub (part_at A i) (part_at B i)) =
     (if js_less (part_at A i) (part_at B i) then - 1
      else if part_at A i = part_at B i then 0 else 1)"
  using js_sign_sub [OF part_at_not_NaN part_at_not_NaN, of A i B i]
    js_key_inj [OF part_at_not_NaN part_at_not_NaN, of A i B i]
  by (simp add: js_less_def)

subsection \<open>The version order\<close>

lemma cmp_loop_step:
  "i < max (length A) (length B) \<Longrightarrow>
     cmp_loop i A B = (if part_at A i \<noteq> part_at B i then js_sub (part_at A i) (part_at B i)
                       else cmp_loop (Suc i) A B)"
  by (simp add: cmp_loop.simps [of i] Let_def js_neq_part_at)

lemma cmp_loop_done: "\<not> i < max (length A) (length B) \<Longrightarrow> cmp_loop i A B = Fin 0"
  by (simp add: cmp_loop.simps [of i])

lemma cmp_loop_neg: "js_sign (cmp_loop i B A) = - js_sign (cmp_loop i A B)"
proof (induction i A B rule: cmp_loop.induct)
  case (1 i partsA partsB)
  show ?case
  proof (cases "i < max (length partsA) (length partsB)")
    case inb: True
    then have inb': "i < max (length partsB) (length partsA)" by (simp add: max.commute)
    show ?thesis
    proof (cases "part_at partsA i = part_at partsB i")
      case True
      then have "js_sign (cmp_loop (Suc i) partsB partsA) = - js_sign (cmp_loop (Suc i) partsA partsB)"
        using 1 inb by (simp add: js_neq_part_at)
      with True show ?thesis
        by (simp add: cmp_loop_step [OF inb] cmp_loop_step [OF inb'])
    next
      case False
      have "js_sign (js_sub (part_at partsB i) (part_at partsA i))
          = - js_sign (js_sub (part_at partsA i) (part_at partsB i))"
        using False js_less_asym [of "part_at partsA i" "part_at partsB i"]
          js_less_part_at [of partsA i partsB]
        by (auto simp: js_sign_sub_part_at)
      with False show ?thesis
        by (simp add: cmp_loop_step [OF inb] cmp_loop_step [OF inb'] eq_commute [of "part_at partsB i"])
    qed
  next
    case False
    then have "\<not> i < max (length partsB) (length partsA)" by (simp add: max.commute)
    with False show ?thesis by (simp add: cmp_loop_done)
  qed
qed

lemma cmp_loop_zero_iff:
  "cmp_loop i A B = Fin 0 \<longleftrightarrow> (\<forall>j\<ge>i. part_at A j = part_at B j)"
proof (induction i A B rule: cmp_loop.induct)
  case (1 i partsA partsB)
  show ?case
  proof (cases "i < max (length partsA) (length partsB)")
    case inb: True
    show ?thesis
    proof (cases "part_at partsA i = part_at partsB i")
      case True
      have "cmp_loop i partsA partsB = cmp_loop (Suc i) partsA partsB"
        using True by (simp add: cmp_loop_step [OF inb])
      moreover have "cmp_loop (Suc i) partsA partsB = Fin 0 \<longleftrightarrow>
          (\<forall>j\<ge>Suc i. part_at partsA j = part_at partsB j)"
        using 1 inb True by (simp add: js_neq_part_at)
      moreover have "(\<forall>j\<ge>Suc i. part_at partsA j = part_at partsB j) \<longleftrightarrow>
          (\<forall>j\<ge>i. part_at partsA j = part_at partsB j)"
        using True by (metis Suc_leI le_neq_implies_less Suc_leD)
      ultimately show ?thesis by simp
    next
      case False
      have "js_sign (cmp_loop i partsA partsB) \<noteq> 0"
        using False js_sign_zero_sub [OF part_at_not_NaN part_at_not_NaN False]
        by (simp add: cmp_loop_step [OF inb])
      then have "cmp_loop i partsA partsB \<noteq> Fin 0" by auto
      with False show ?thesis by auto
    qed
  next
    case False
    then have "cmp_loop i partsA partsB = Fin 0" by (rule cmp_loop_done)
    moreover have "\<forall>j\<ge>i. part_at partsA j = part_at partsB j"
      using False by (simp add: part_at_beyond)
    ultimately show ?thesis by simp
  qed
qed

lemma cmp_loop_sign_zero: "js_sign (cmp_loop i A B) = 0 \<longleftrightarrow> cmp_loop i A B = Fin 0"
proof (induction i A B rule: cmp_loop.induct)
  case (1 i partsA partsB)
  show ?case
  proof (cases "i < max (length partsA) (length partsB)")
    case inb: True
    show ?thesis
    proof (cases "part_at partsA i = part_at partsB i")
      case True
      with 1 inb show ?thesis by (simp add: cmp_loop_step [OF inb] js_neq_part_at)
    next
      case False
      have "js_sign (cmp_loop i partsA partsB) \<noteq> 0"
        using False js_sign_zero_sub [OF part_at_not_NaN part_at_not_NaN False]
        by (simp add: cmp_loop_step [OF inb])
      then show ?thesis by auto
    qed
  next
    case False
    then show ?thesis by (simp add: cmp_loop_done)
  qed
qed

lemma cmp_loop_less_iff:
  "js_sign (cmp_loop i A B) < 0 \<longleftrightarrow>
     (\<exists>k\<ge>i. js_less (part_at A k) (part_at B k)
        \<and> (\<forall>j. i \<le> j \<and> j < k \<longrightarrow> part_at A j = part_at B j))"
proof (induction i A B rule: cmp_loop.induct)
  case (1 i partsA partsB)
  let ?R = "\<lambda>i. \<exists>k\<ge>i. js_less (part_at partsA k) (part_at partsB k) \<and>
               (\<forall>j. i \<le> j \<and> j < k \<longrightarrow> part_at partsA j = part_at partsB j)"
  show ?case
  proof (cases "i < max (length partsA) (length partsB)")
    case inb: True
    show ?thesis
    proof (cases "part_at partsA i = part_at partsB i")
      case True
      have "cmp_loop i partsA partsB = cmp_loop (Suc i) partsA partsB"
        using True by (simp add: cmp_loop_step [OF inb])
      moreover have "js_sign (cmp_loop (Suc i) partsA partsB) < 0 \<longleftrightarrow> ?R (Suc i)"
        using 1 inb True by (simp add: js_neq_part_at)
      moreover have "?R (Suc i) \<longleftrightarrow> ?R i"
      proof
        assume "?R (Suc i)"
        then obtain k where k: "Suc i \<le> k" "js_less (part_at partsA k) (part_at partsB k)"
          "\<forall>j. Suc i \<le> j \<and> j < k \<longrightarrow> part_at partsA j = part_at partsB j" by blast
        have "\<forall>j. i \<le> j \<and> j < k \<longrightarrow> part_at partsA j = part_at partsB j"
          using k(3) True by (metis Suc_leI le_neq_implies_less)
        with k show "?R i" by (meson Suc_leD)
      next
        assume "?R i"
        then obtain k where k: "i \<le> k" "js_less (part_at partsA k) (part_at partsB k)"
          "\<forall>j. i \<le> j \<and> j < k \<longrightarrow> part_at partsA j = part_at partsB j" by blast
        from k(2) True have "k \<noteq> i" using js_less_irrefl by auto
        with k(1) have "Suc i \<le> k" by simp
        with k show "?R (Suc i)" by (meson Suc_leD)
      qed
      ultimately show ?thesis by simp
    next
      case False
      have eq: "js_sign (cmp_loop i partsA partsB) =
          (if js_less (part_at partsA i) (part_at partsB i) then - 1 else 1)"
        using False by (simp add: cmp_loop_step [OF inb] js_sign_sub_part_at)
      show ?thesis
      proof
        assume "js_sign (cmp_loop i partsA partsB) < 0"
        with eq have "js_less (part_at partsA i) (part_at partsB i)" by (simp split: if_splits)
        then show "?R i" by (intro exI [of _ i]) auto
      next
        assume "?R i"
        then obtain k where k: "i \<le> k" "js_less (part_at partsA k) (part_at partsB k)"
          "\<forall>j. i \<le> j \<and> j < k \<longrightarrow> part_at partsA j = part_at partsB j" by blast
        have "k = i" using k(1) k(3) False by (metis le_neq_implies_less order_refl)
        with k(2) eq show "js_sign (cmp_loop i partsA partsB) < 0" by simp
      qed
    qed
  next
    case False
    then have "cmp_loop i partsA partsB = Fin 0" by (rule cmp_loop_done)
    moreover have "\<not> ?R i"
      using False by (auto simp: part_at_beyond js_less_irrefl)
    ultimately show ?thesis by simp
  qed
qed

lemma lex_less_trans:
  fixes f g h :: "nat \<Rightarrow> jsnumber"
  assumes "\<exists>k. js_less (f k) (g k) \<and> (\<forall>j<k. f j = g j)"
    and "\<exists>k. js_less (g k) (h k) \<and> (\<forall>j<k. g j = h j)"
  shows "\<exists>k. js_less (f k) (h k) \<and> (\<forall>j<k. f j = h j)"
proof -
  from assms obtain k1 k2 where k1: "js_less (f k1) (g k1)" "\<forall>j<k1. f j = g j"
    and k2: "js_less (g k2) (h k2)" "\<forall>j<k2. g j = h j" by blast
  consider "k1 < k2" | "k1 = k2" | "k2 < k1" by linarith
  then show ?thesis
  proof cases
    case 1
    with k1 k2 have "js_less (f k1) (h k1)" "\<forall>j<k1. f j = h j" by auto
    then show ?thesis by blast
  next
    case 2
    with k1 k2 have "js_less (f k1) (h k1)" "\<forall>j<k1. f j = h j"
      by (auto intro: js_less_trans)
    then show ?thesis by blast
  next
    case 3
    with k1 k2 have "js_less (f k2) (h k2)" "\<forall>j<k2. f j = h j" by auto
    then show ?thesis by blast
  qed
qed

lemma compareVersions_zero_iff:
  "compareVersions a b = Fin 0 \<longleftrightarrow>
     (\<forall>j. part_at (version_parts a) j = part_at (version_parts b) j)"
  by (simp add: compareVersions_def cmp_loop_zero_iff)

lemma compareVersions_sign_zero:
  "js_sign (compareVersions a b) = 0 \<longleftrightarrow> compareVersions a b = Fin 0"
  unfolding compareVersions_def by (rule cmp_loop_sign_zero)

lemma compareVersions_less_iff:
  "js_sign (compareVersions a b) < 0 \<longleftrightarrow>
     (\<exists>k. js_less (part_at (version_parts a) k) (part_at (version_parts b) k) \<and>
          (\<forall>j<k. part_at (version_parts a) j = part_at (version_parts b) j))"
  by (simp add: compareVersions_def cmp_loop_less_iff)

lemma compareVersions_neg:
  "js_sign (compareVersions b a) = - js_sign (compareVersions a b)"
  unfolding compareVersions_def by (rule cmp_loop_neg)

lemma compareVersions_le_trans:
  assumes "js_sign (compareVersions a b) \<le> 0" "js_sign (compareVersions b c) \<le> 0"
  shows "js_sign (compareVersions a c) \<le> 0"
proof -
  let ?f = "part_at (version_parts a)" and ?g = "part_at (version_parts b)"
  and ?h = "part_at (version_parts c)"
  from assms(1) consider "js_sign (compareVersions a b) < 0" | "js_sign (compareVersions a b) = 0"
    by linarith
  then show ?thesis
  proof cases
    case 1
    from assms(2) consider "js_sign (compareVersions b c) < 0" | "js_sign (compareVersions b c) = 0"
      by linarith
    then show ?thesis
    proof cases
      case l2: 1
      have "\<exists>k. js_less (?f k) (?h k) \<and> (\<forall>j<k. ?f j = ?h j)"
        using lex_less_trans [of ?f ?g ?h] 1 l2 by (simp add: compareVersions_less_iff)
      then have "js_sign (compareVersions a c) < 0" by (simp add: compareVersions_less_iff)
      then show ?thesis by simp
    next
      case 2
      then have "?g = ?h" by (auto simp: compareVersions_sign_zero compareVersions_zero_iff)
      with 1 have "js_sign (compareVersions a c) < 0" by (simp add: compareVersions_less_iff)
      then show ?thesis by simp
    qed
  next
    case 2
    then have fg: "?f = ?g" by (auto simp: compareVersions_sign_zero compareVersions_zero_iff)
    from assms(2) consider "js_sign (compareVersions b c) < 0" | "js_sign (compareVersions b c) = 0"
      by linarith
    then show ?thesis
    proof cases
      case 1
      with fg have "js_sign (compareVersions a c) < 0" by (simp add: compareVersions_less_iff)
      then show ?thesis by simp
    next
      case z: 2
      then have "?g = ?h" by (auto simp: compareVersions_sign_zero compareVersions_zero_iff)
      with fg have "compareVersions a c = Fin 0" by (simp add: compareVersions_zero_iff)
      then show ?thesis by simp
    qed
  qed
qed

lemma js_split_nodot: "CHR ''.'' \<notin> set x \<Longrightarrow> js_split x = [x]"
  by (induction x) auto

lemma js_split_append_dot:
  "CHR ''.'' \<notin> set x \<Longrightarrow> js_split (x @ CHR ''.'' # r) = x # js_split r"
  by (induction x) auto

lemma js_split_head: "\<exists>rest. js_split s = takeWhile (\<lambda>c. c \<noteq> CHR ''.'') s # rest"
  by (induction s) (auto split: list.splits)

lemma digit_not_dot: "is_digit c \<Longrightarrow> c \<noteq> CHR ''.''"
  by (auto simp: is_digit_def)

lemma digits_no_dot: "list_all is_digit d \<Longrightarrow> CHR ''.'' \<notin> set d"
  by (auto simp: list_all_iff dest: digit_not_dot)

lemma parseInt_digits:
  assumes "d \<noteq> []" "list_all is_digit d" "takeWhile is_digit r = []"
  shows "parseInt (d @ r) = to_number (digits_val d)"
proof -
  from assms(1) obtain c d' where d: "d = c # d'" by (cases d) auto
  with assms(2) have c: "is_digit c" by simp
  then have ns: "\<not> is_space c" and nm: "c \<noteq> CHR ''-''" and np: "c \<noteq> CHR ''+''"
    by (auto simp: is_digit_def is_space_def)
  have tw: "takeWhile is_digit (d @ r) = d"
    using assms(2,3) by (simp add: list_all_iff)
  have dw: "dropWhile is_space (d @ r) = d @ r"
    using d ns by simp
  show ?thesis
    unfolding parseInt_def dw using d nm np tw assms(1) by (simp add: Let_def)
qed

lemma suffix_no_digit: "prerelease_suffix p \<Longrightarrow> takeWhile is_digit p = []"
  by (cases p) (auto simp: prerelease_suffix_def is_digit_def)

lemma suffix_head_no_digit:
  "prerelease_suffix p \<Longrightarrow> takeWhile is_digit (takeWhile (\<lambda>c. c \<noteq> CHR ''.'') p) = []"
  by (cases p) (auto simp: prerelease_suffix_def is_digit_def)

lemma dotless_is_suffix: "dotless_suffix p \<Longrightarrow> prerelease_suffix p"
  by (cases p) (auto simp: dotless_suffix_def prerelease_suffix_def)

text \<open>The parts of a version string: its three digit runs, then what the suffix adds.\<close>

lemma version_parts_form:
  assumes "digit_run d1" "digit_run d2" "digit_run d3" "prerelease_suffix p"
  shows "\<exists>rest. version_parts (version_string d1 d2 d3 p) =
           or0 (to_number (digits_val d1)) # or0 (to_number (digits_val d2))
             # or0 (to_number (digits_val d3)) # rest"
proof -
  let ?p0 = "takeWhile (\<lambda>c. c \<noteq> CHR ''.'') p"
  from assms have nd: "CHR ''.'' \<notin> set d1" "CHR ''.'' \<notin> set d2" "CHR ''.'' \<notin> set d3"
    by (simp_all add: digit_run_def digits_no_dot)
  have tw: "takeWhile (\<lambda>c. c \<noteq> CHR ''.'') (d3 @ p) = d3 @ ?p0"
    by (rule takeWhile_append2) (use nd(3) in auto)
  from js_split_head [of "d3 @ p"] tw obtain rest where
    r: "js_split (d3 @ p) = (d3 @ ?p0) # rest" by auto
  have s: "js_split (version_string d1 d2 d3 p) = d1 # d2 # (d3 @ ?p0) # rest"
    using nd r by (simp add: version_string_def js_split_append_dot)
  have "parseInt d1 = to_number (digits_val d1)"
    using parseInt_digits [of d1 "[]"] assms(1) by (simp add: digit_run_def)
  moreover have "parseInt d2 = to_number (digits_val d2)"
    using parseInt_digits [of d2 "[]"] assms(2) by (simp add: digit_run_def)
  moreover have "parseInt (d3 @ ?p0) = to_number (digits_val d3)"
    using parseInt_digits [of d3 ?p0] assms(3) suffix_head_no_digit [OF assms(4)]
    by (simp add: digit_run_def)
  ultimately show ?thesis by (simp add: version_parts_def s)
qed

lemma version_parts_core:
  assumes "digit_run d1" "digit_run d2" "digit_run d3" "dotless_suffix p"
  shows "version_parts (version_string d1 d2 d3 p) =
           [or0 (to_number (digits_val d1)), or0 (to_number (digits_val d2)),
            or0 (to_number (digits_val d3))]"
proof -
  from assms have nd: "CHR ''.'' \<notin> set d1" "CHR ''.'' \<notin> set d2"
    by (simp_all add: digit_run_def digits_no_dot)
  have nd3: "CHR ''.'' \<notin> set (d3 @ p)"
    using assms(3,4) digits_no_dot [of d3]
    by (cases p) (auto simp: dotless_suffix_def digit_run_def)
  have s: "js_split (version_string d1 d2 d3 p) = [d1, d2, d3 @ p]"
    using nd nd3 by (simp add: version_string_def js_split_append_dot js_split_nodot del: set_append)
  have "parseInt d1 = to_number (digits_val d1)"
    using parseInt_digits [of d1 "[]"] assms(1) by (simp add: digit_run_def)
  moreover have "parseInt d2 = to_number (digits_val d2)"
    using parseInt_digits [of d2 "[]"] assms(2) by (simp add: digit_run_def)
  moreover have "parseInt (d3 @ p) = to_number (digits_val d3)"
    using parseInt_digits [of d3 p] assms(3) suffix_no_digit [OF dotless_is_suffix [OF assms(4)]]
    by (simp add: digit_run_def)
  ultimately show ?thesis by (simp add: version_parts_def s)
qed

lemma digit_val_nonneg: "is_digit c \<Longrightarrow> 0 \<le> digit_val c"
  by (auto simp: is_digit_def digit_val_def)

lemma foldl_digits_nonneg:
  "list_all is_digit ds \<Longrightarrow> 0 \<le> acc \<Longrightarrow> 0 \<le> foldl (\<lambda>acc c. 10 * acc + digit_val c) acc ds"
proof (induction ds arbitrary: acc)
  case Nil
  then show ?case by simp
next
  case (Cons c ds)
  from Cons.prems have "0 \<le> 10 * acc + digit_val c"
    using digit_val_nonneg [of c] by simp
  with Cons show ?case by simp
qed

lemma digits_val_nonneg: "list_all is_digit ds \<Longrightarrow> 0 \<le> digits_val ds"
  unfolding digits_val_def by (rule foldl_digits_nonneg) simp_all

lemma small_part:
  assumes "digit_run d" "digits_val d < 2 ^ 53"
  shows "or0 (to_number (digits_val d)) = Fin (digits_val d)"
proof -
  have "0 \<le> digits_val d" using assms(1) by (simp add: digit_run_def digits_val_nonneg)
  with assms(2) have "\<bar>digits_val d\<bar> < 2 ^ 53" by simp
  then have "to_number (digits_val d) = Fin (digits_val d)" by (rule to_number_small)
  then show ?thesis by (simp add: or0_def)
qed

lemma takeWhile_digits_dot:
  "list_all is_digit d \<Longrightarrow> takeWhile is_digit (d @ CHR ''.'' # r) = d"
  by (simp add: list_all_iff takeWhile_append2 is_digit_def)

lemma dropWhile_digits_dot:
  "list_all is_digit d \<Longrightarrow> dropWhile is_digit (d @ CHR ''.'' # r) = CHR ''.'' # r"
  by (simp add: list_all_iff dropWhile_append2 is_digit_def)

lemma exact_triple_form:
  assumes "digit_run d1" "digit_run d2" "digit_run d3" "prerelease_suffix p"
  shows "exact_triple (version_string d1 d2 d3 p) = (digits_val d1, digits_val d2, digits_val d3)"
proof -
  from assms have a: "list_all is_digit d1" "list_all is_digit d2" "list_all is_digit d3"
    by (simp_all add: digit_run_def)
  have t3: "takeWhile is_digit (d3 @ p) = d3"
    using a(3) suffix_no_digit [OF assms(4)] by (simp add: list_all_iff takeWhile_append2)
  have v: "version_string d1 d2 d3 p = d1 @ CHR ''.'' # (d2 @ CHR ''.'' # (d3 @ p))"
    by (simp add: version_string_def)
  show ?thesis
    unfolding exact_triple_def v
    by (simp add: Let_def takeWhile_digits_dot [OF a(1)] dropWhile_digits_dot [OF a(1)]
        takeWhile_digits_dot [OF a(2)] dropWhile_digits_dot [OF a(2)] t3)
qed

lemma js_less_Fin: "js_less (Fin a) (Fin b) \<longleftrightarrow> a < b"
  by (simp add: js_less_def)

text \<open>Below \<open>2^53\<close> a smaller triple compares LESS.\<close>

lemma small_triple_less:
  assumes x: "digit_run d1" "digit_run d2" "digit_run d3" "prerelease_suffix p"
    and y: "digit_run e1" "digit_run e2" "digit_run e3" "prerelease_suffix q"
    and sx: "digits_val d1 < 2 ^ 53" "digits_val d2 < 2 ^ 53" "digits_val d3 < 2 ^ 53"
    and sy: "digits_val e1 < 2 ^ 53" "digits_val e2 < 2 ^ 53" "digits_val e3 < 2 ^ 53"
    and less: "triple_less (exact_triple (version_string d1 d2 d3 p))
                 (exact_triple (version_string e1 e2 e3 q))"
  shows "js_sign (compareVersions (version_string d1 d2 d3 p) (version_string e1 e2 e3 q)) < 0"
proof -
  let ?A = "version_parts (version_string d1 d2 d3 p)"
  let ?B = "version_parts (version_string e1 e2 e3 q)"
  from version_parts_form [OF x] obtain ra where
    A: "?A = Fin (digits_val d1) # Fin (digits_val d2) # Fin (digits_val d3) # ra"
    by (auto simp: small_part [OF x(1) sx(1)] small_part [OF x(2) sx(2)] small_part [OF x(3) sx(3)])
  from version_parts_form [OF y] obtain rb where
    B: "?B = Fin (digits_val e1) # Fin (digits_val e2) # Fin (digits_val e3) # rb"
    by (auto simp: small_part [OF y(1) sy(1)] small_part [OF y(2) sy(2)] small_part [OF y(3) sy(3)])
  have pa: "part_at ?A 0 = Fin (digits_val d1)" "part_at ?A 1 = Fin (digits_val d2)"
    "part_at ?A 2 = Fin (digits_val d3)"
    unfolding A by (simp_all add: part_at_def or0_def numeral_2_eq_2)
  have pb: "part_at ?B 0 = Fin (digits_val e1)" "part_at ?B 1 = Fin (digits_val e2)"
    "part_at ?B 2 = Fin (digits_val e3)"
    unfolding B by (simp_all add: part_at_def or0_def numeral_2_eq_2)
  from less consider "digits_val d1 < digits_val e1"
    | "digits_val d1 = digits_val e1" "digits_val d2 < digits_val e2"
    | "digits_val d1 = digits_val e1" "digits_val d2 = digits_val e2" "digits_val d3 < digits_val e3"
    by (auto simp: exact_triple_form [OF x] exact_triple_form [OF y] triple_less_def)
  then show ?thesis
  proof cases
    case 1
    then have "js_less (part_at ?A 0) (part_at ?B 0)" by (simp only: pa pb js_less_Fin)
    then show ?thesis unfolding compareVersions_less_iff by (intro exI [of _ 0]) simp
  next
    case 2
    then have "js_less (part_at ?A 1) (part_at ?B 1)" by (simp only: pa pb js_less_Fin)
    moreover have "\<forall>j<1. part_at ?A j = part_at ?B j"
      using 2(1) pa(1) pb(1) by simp
    ultimately show ?thesis unfolding compareVersions_less_iff by blast
  next
    case 3
    then have "js_less (part_at ?A 2) (part_at ?B 2)" by (simp only: pa pb js_less_Fin)
    moreover have "\<forall>j<2. part_at ?A j = part_at ?B j"
    proof (intro allI impI)
      fix j :: nat
      assume "j < 2"
      then consider "j = 0" | "j = 1" by linarith
      then show "part_at ?A j = part_at ?B j"
        using 3(1,2) pa(1,2) pb(1,2) by cases simp_all
    qed
    ultimately show ?thesis unfolding compareVersions_less_iff by blast
  qed
qed

text \<open>
  C5, amended: \<open>compareVersions\<close> is a total preorder on all version strings (reflexive,
  antisymmetric in sign, transitive), the lexicographic comparison of the numbers of the
  dot-separated components with a missing component taken as \<open>0\<close>; for strings
  \<open>MAJOR.MINOR.PATCH[-prerelease]\<close> whose three components are below \<open>2^53\<close> a smaller
  triple compares LESS, a greater one GREATER, and equal triples with dotless suffixes
  EQUAL; \<open>compareVersions("1.2.0", "1.10.0")\<close> is LESS.
\<close>

theorem compareVersions_total_order:
  "compareVersions a a = Fin 0
   \<and> js_sign (compareVersions b a) = - js_sign (compareVersions a b)
   \<and> (js_sign (compareVersions a b) \<le> 0 \<and> js_sign (compareVersions b c) \<le> 0
        \<longrightarrow> js_sign (compareVersions a c) \<le> 0)
   \<and> (compareVersions a b = Fin 0 \<longleftrightarrow>
        (\<forall>j. part_at (version_parts a) j = part_at (version_parts b) j))
   \<and> (js_sign (compareVersions a b) < 0 \<longleftrightarrow>
        (\<exists>k. js_less (part_at (version_parts a) k) (part_at (version_parts b) k) \<and>
             (\<forall>j<k. part_at (version_parts a) j = part_at (version_parts b) j)))
   \<and> (digit_run xa \<and> digit_run xb \<and> digit_run xc \<and> prerelease_suffix p
        \<and> digit_run ya \<and> digit_run yb \<and> digit_run yc \<and> prerelease_suffix q
        \<and> digits_val xa < 2 ^ 53 \<and> digits_val xb < 2 ^ 53 \<and> digits_val xc < 2 ^ 53
        \<and> digits_val ya < 2 ^ 53 \<and> digits_val yb < 2 ^ 53 \<and> digits_val yc < 2 ^ 53 \<longrightarrow>
        (triple_less (exact_triple (version_string xa xb xc p))
                     (exact_triple (version_string ya yb yc q))
           \<longrightarrow> js_sign (compareVersions (version_string xa xb xc p)
                                           (version_string ya yb yc q)) < 0)
        \<and> (triple_less (exact_triple (version_string ya yb yc q))
                        (exact_triple (version_string xa xb xc p))
           \<longrightarrow> 0 < js_sign (compareVersions (version_string xa xb xc p)
                                               (version_string ya yb yc q)))
        \<and> (exact_triple (version_string xa xb xc p) = exact_triple (version_string ya yb yc q)
             \<and> dotless_suffix p \<and> dotless_suffix q
           \<longrightarrow> compareVersions (version_string xa xb xc p) (version_string ya yb yc q) = Fin 0))
   \<and> js_sign (compareVersions ''1.2.0'' ''1.10.0'') < 0"
proof -
  have refl: "compareVersions a a = Fin 0" by (simp add: compareVersions_zero_iff)
  have tr: "js_sign (compareVersions a b) \<le> 0 \<and> js_sign (compareVersions b c) \<le> 0
        \<longrightarrow> js_sign (compareVersions a c) \<le> 0"
    using compareVersions_le_trans [of a b c] by blast
  have bounded: "digit_run xa \<and> digit_run xb \<and> digit_run xc \<and> prerelease_suffix p
        \<and> digit_run ya \<and> digit_run yb \<and> digit_run yc \<and> prerelease_suffix q
        \<and> digits_val xa < 2 ^ 53 \<and> digits_val xb < 2 ^ 53 \<and> digits_val xc < 2 ^ 53
        \<and> digits_val ya < 2 ^ 53 \<and> digits_val yb < 2 ^ 53 \<and> digits_val yc < 2 ^ 53 \<longrightarrow>
        (triple_less (exact_triple (version_string xa xb xc p))
                     (exact_triple (version_string ya yb yc q))
           \<longrightarrow> js_sign (compareVersions (version_string xa xb xc p)
                                           (version_string ya yb yc q)) < 0)
        \<and> (triple_less (exact_triple (version_string ya yb yc q))
                        (exact_triple (version_string xa xb xc p))
           \<longrightarrow> 0 < js_sign (compareVersions (version_string xa xb xc p)
                                               (version_string ya yb yc q)))
        \<and> (exact_triple (version_string xa xb xc p) = exact_triple (version_string ya yb yc q)
             \<and> dotless_suffix p \<and> dotless_suffix q
           \<longrightarrow> compareVersions (version_string xa xb xc p) (version_string ya yb yc q) = Fin 0)"
  proof (intro impI conjI)
    assume h: "digit_run xa \<and> digit_run xb \<and> digit_run xc \<and> prerelease_suffix p
        \<and> digit_run ya \<and> digit_run yb \<and> digit_run yc \<and> prerelease_suffix q
        \<and> digits_val xa < 2 ^ 53 \<and> digits_val xb < 2 ^ 53 \<and> digits_val xc < 2 ^ 53
        \<and> digits_val ya < 2 ^ 53 \<and> digits_val yb < 2 ^ 53 \<and> digits_val yc < 2 ^ 53"
    {
      assume "triple_less (exact_triple (version_string xa xb xc p))
                     (exact_triple (version_string ya yb yc q))"
      with h show "js_sign (compareVersions (version_string xa xb xc p)
                                           (version_string ya yb yc q)) < 0"
        by (intro small_triple_less) simp_all
    }
    {
      assume "triple_less (exact_triple (version_string ya yb yc q))
                        (exact_triple (version_string xa xb xc p))"
      with h have "js_sign (compareVersions (version_string ya yb yc q)
                                           (version_string xa xb xc p)) < 0"
        by (intro small_triple_less) simp_all
      then show "0 < js_sign (compareVersions (version_string xa xb xc p)
                                               (version_string ya yb yc q))"
        using compareVersions_neg [of "version_string xa xb xc p" "version_string ya yb yc q"]
        by simp
    }
    {
      assume e: "exact_triple (version_string xa xb xc p) = exact_triple (version_string ya yb yc q)
             \<and> dotless_suffix p \<and> dotless_suffix q"
      from h have x: "digit_run xa" "digit_run xb" "digit_run xc"
        and y: "digit_run ya" "digit_run yb" "digit_run yc"
        and sp: "prerelease_suffix p" and sq: "prerelease_suffix q" by simp_all
      from e have "digits_val xa = digits_val ya" "digits_val xb = digits_val yb"
        "digits_val xc = digits_val yc"
        by (simp_all add: exact_triple_form [OF x sp] exact_triple_form [OF y sq])
      with e have "version_parts (version_string xa xb xc p) = version_parts (version_string ya yb yc q)"
        by (simp add: version_parts_core [OF x] version_parts_core [OF y])
      then show "compareVersions (version_string xa xb xc p) (version_string ya yb yc q) = Fin 0"
        by (simp add: compareVersions_zero_iff)
    }
  qed
  have ex: "js_sign (compareVersions ''1.2.0'' ''1.10.0'') < 0" by code_simp
  note facts = refl compareVersions_neg [of b a] tr compareVersions_zero_iff [of a b]
    compareVersions_less_iff [of a b] bounded ex
  show ?thesis by (intro conjI; rule facts)
qed

theorem compareVersions_total_order_witness:
  "version_string ''1'' ''2'' ''0'' [] = ''1.2.0''
   \<and> version_string ''1'' ''10'' ''0'' ''-rc.1'' = ''1.10.0-rc.1''
   \<and> triple_less (exact_triple ''1.2.0'') (exact_triple ''1.10.0-rc.1'')
   \<and> js_sign (compareVersions ''1.2.0'' ''1.10.0-rc.1'') < 0
   \<and> js_sign (compareVersions ''1.2.0'' ''1.10.0-rc.1'') \<le> 0
   \<and> js_sign (compareVersions ''1.10.0-rc.1'' ''2.0'') \<le> 0
   \<and> js_sign (compareVersions ''1.2.0'' ''2.0'') \<le> 0"
proof -
  have v: "version_string ''1'' ''2'' ''0'' [] = ''1.2.0''"
    "version_string ''1'' ''10'' ''0'' ''-rc.1'' = ''1.10.0-rc.1''"
    by (simp_all add: version_string_def)
  have h: "digit_run ''1'' \<and> digit_run ''2'' \<and> digit_run ''0'' \<and> prerelease_suffix []
        \<and> digit_run ''1'' \<and> digit_run ''10'' \<and> digit_run ''0'' \<and> prerelease_suffix ''-rc.1''
        \<and> digits_val ''1'' < 2 ^ 53 \<and> digits_val ''2'' < 2 ^ 53 \<and> digits_val ''0'' < 2 ^ 53
        \<and> digits_val ''1'' < 2 ^ 53 \<and> digits_val ''10'' < 2 ^ 53 \<and> digits_val ''0'' < 2 ^ 53"
    by (simp add: digit_run_def is_digit_def prerelease_suffix_def digits_val_def digit_val_def)
  have t: "triple_less (exact_triple ''1.2.0'') (exact_triple ''1.10.0-rc.1'')" by code_simp
  have h2: "js_sign (compareVersions ''1.2.0'' ''1.10.0-rc.1'') \<le> 0" by code_simp
  have h3: "js_sign (compareVersions ''1.10.0-rc.1'' ''2.0'') \<le> 0" by code_simp
  note inst = compareVersions_total_order [where a = "''1.2.0''" and b = "''1.10.0-rc.1''"
      and c = "''2.0''" and xa = "''1''" and xb = "''2''" and xc = "''0''" and p = "[]"
      and ya = "''1''" and yb = "''10''" and yc = "''0''" and q = "''-rc.1''"]
  from inst h2 h3 have tr: "js_sign (compareVersions ''1.2.0'' ''2.0'') \<le> 0" by blast
  from inst h have "triple_less (exact_triple (version_string ''1'' ''2'' ''0'' []))
                     (exact_triple (version_string ''1'' ''10'' ''0'' ''-rc.1''))
           \<longrightarrow> js_sign (compareVersions (version_string ''1'' ''2'' ''0'' [])
                                           (version_string ''1'' ''10'' ''0'' ''-rc.1'')) < 0"
    by blast
  with t have "js_sign (compareVersions ''1.2.0'' ''1.10.0-rc.1'') < 0" unfolding v by blast
  with v t h2 h3 tr show ?thesis by blast
qed

text \<open>
  C5, as stated, fails: \<open>9007199254740992.0.0\<close> and \<open>9007199254740993.0.0\<close> are both
  accepted by the version grammar and the first has the smaller major, but \<open>parseInt\<close>
  rounds both majors to the same number and the comparison answers EQUAL.
\<close>

theorem compareVersions_rounding_counterexample:
  "valid_version ''9007199254740992.0.0'' \<and> valid_version ''9007199254740993.0.0''
   \<and> triple_less (exact_triple ''9007199254740992.0.0'') (exact_triple ''9007199254740993.0.0'')
   \<and> compareVersions ''9007199254740992.0.0'' ''9007199254740993.0.0'' = Fin 0"
  by code_simp

text \<open>
  C4, as stated, fails: \<open>1.0.0-alpha.1\<close> and \<open>1.0.0-alpha\<close> are both accepted by the
  version grammar, have the same major, minor and patch, and compare GREATER, because the
  piece after the dot inside the suffix is read as a fourth component.
\<close>

theorem compareVersions_prerelease_counterexample:
  "valid_version ''1.0.0-alpha.1'' \<and> valid_version ''1.0.0-alpha''
   \<and> version_triple ''1.0.0-alpha.1'' = version_triple ''1.0.0-alpha''
   \<and> exact_triple ''1.0.0-alpha.1'' = exact_triple ''1.0.0-alpha''
   \<and> compareVersions ''1.0.0-alpha.1'' ''1.0.0-alpha'' = Fin 1"
  by code_simp

text \<open>
  C4, amended: two version strings with the same \<open>MAJOR.MINOR.PATCH\<close> digits whose
  pre-release suffixes (absent, or \<open>-\<close> and further characters) contain no dot compare
  EQUAL.
\<close>

theorem compareVersions_dotless_prerelease_equal:
  assumes "d1 \<noteq> []" "list_all is_digit d1" "d2 \<noteq> []" "list_all is_digit d2"
    "d3 \<noteq> []" "list_all is_digit d3" "dotless_suffix pa" "dotless_suffix pb"
  shows "compareVersions (d1 @ ''.'' @ d2 @ ''.'' @ d3 @ pa) (d1 @ ''.'' @ d2 @ ''.'' @ d3 @ pb)
           = Fin 0"
proof -
  from assms have r: "digit_run d1" "digit_run d2" "digit_run d3"
    by (simp_all add: digit_run_def)
  have "version_parts (version_string d1 d2 d3 pa) = version_parts (version_string d1 d2 d3 pb)"
    by (simp only: version_parts_core [OF r assms(7)] version_parts_core [OF r assms(8)])
  then have "compareVersions (version_string d1 d2 d3 pa) (version_string d1 d2 d3 pb) = Fin 0"
    by (simp add: compareVersions_zero_iff)
  then show ?thesis by (simp only: version_string_def)
qed

theorem compareVersions_dotless_prerelease_equal_witness:
  "compareVersions ''1.0.0-alpha'' ''1.0.0-beta'' = Fin 0"
proof -
  have d: "''1'' \<noteq> []" "list_all is_digit ''1''" "''0'' \<noteq> []" "list_all is_digit ''0''"
    by (simp_all add: is_digit_def)
  have s: "dotless_suffix ''-alpha''" "dotless_suffix ''-beta''"
    by (simp_all add: dotless_suffix_def)
  show ?thesis
    using compareVersions_dotless_prerelease_equal [OF d(1,2) d(3,4) d(3,4) s] by simp
qed

subsection \<open>The store and the sort\<close>

lemma kv_get_put: "kv_get (kv_put k v s) k' = (if k' = k then Some v else kv_get s k')"
  by (induction s) (auto simp: kv_get_def)

lemma set_js_insort: "set (js_insort cmp x ys) = insert x (set ys)"
  by (induction ys) auto

lemma set_js_sort: "set (js_sort cmp xs) = set xs"
  by (induction xs) (auto simp: js_sort_def set_js_insort)

lemma length_js_insort: "length (js_insort cmp x ys) = Suc (length ys)"
  by (induction ys) auto

lemma length_js_sort: "length (js_sort cmp xs) = length xs"
  by (induction xs) (auto simp: js_sort_def length_js_insort)

lemma distinct_map_js_insort:
  "distinct (map f (js_insort cmp x ys)) \<longleftrightarrow> f x \<notin> f ` set ys \<and> distinct (map f ys)"
  by (induction ys) (auto simp: set_js_insort)

lemma distinct_map_js_sort: "distinct (map f (js_sort cmp xs)) \<longleftrightarrow> distinct (map f xs)"
  by (induction xs) (auto simp: js_sort_def distinct_map_js_insort set_js_sort [unfolded js_sort_def])

lemma sorted_js_insort:
  assumes total: "\<And>a b. js_sign (cmp a b) \<le> 0 \<or> js_sign (cmp b a) \<le> 0"
    and trans: "\<And>a b c. js_sign (cmp a b) \<le> 0 \<Longrightarrow> js_sign (cmp b c) \<le> 0
                  \<Longrightarrow> js_sign (cmp a c) \<le> 0"
    and "sorted_wrt (\<lambda>a b. js_sign (cmp a b) \<le> 0) ys"
  shows "sorted_wrt (\<lambda>a b. js_sign (cmp a b) \<le> 0) (js_insort cmp x ys)"
  using assms(3)
proof (induction ys)
  case Nil
  then show ?case by simp
next
  case (Cons y ys)
  show ?case
  proof (cases "js_sign (cmp x y) \<le> 0")
    case True
    have "\<forall>z\<in>set ys. js_sign (cmp x z) \<le> 0"
      using Cons.prems True trans by auto
    with True Cons.prems show ?thesis by simp
  next
    case False
    then have "js_sign (cmp y x) \<le> 0" using total [of x y] by simp
    with False Cons show ?thesis by (auto simp: set_js_insort)
  qed
qed

lemma sorted_js_sort:
  assumes total: "\<And>a b. js_sign (cmp a b) \<le> 0 \<or> js_sign (cmp b a) \<le> 0"
    and trans: "\<And>a b c. js_sign (cmp a b) \<le> 0 \<Longrightarrow> js_sign (cmp b c) \<le> 0
                  \<Longrightarrow> js_sign (cmp a c) \<le> 0"
  shows "sorted_wrt (\<lambda>a b. js_sign (cmp a b) \<le> 0) (js_sort cmp xs)"
proof (induction xs)
  case Nil
  then show ?case by (simp add: js_sort_def)
next
  case (Cons x xs)
  have "js_sort cmp (x # xs) = js_insort cmp x (js_sort cmp xs)" by (simp add: js_sort_def)
  with Cons sorted_js_insort [of cmp "js_sort cmp xs" x, OF total trans] show ?case by simp
qed

text \<open>The comparison is a total preorder, so the sorted list is descending.\<close>

lemma sorted_desc_js_sort:
  "sorted_desc (js_sort (\<lambda>a b. compareVersions (version b) (version a)) vs)"
proof -
  let ?cmp = "\<lambda>a b :: PackageVersion. compareVersions (version b) (version a)"
  have total: "js_sign (?cmp a b) \<le> 0 \<or> js_sign (?cmp b a) \<le> 0" for a b :: PackageVersion
    using compareVersions_neg [of "version a" "version b"] by linarith
  have flip: "0 \<le> js_sign (compareVersions (version a) (version b))"
    if "js_sign (compareVersions (version b) (version a)) \<le> 0" for a b :: PackageVersion
    using compareVersions_neg [of "version a" "version b"] that by linarith
  have trans: "js_sign (?cmp a c) \<le> 0"
    if "js_sign (?cmp a b) \<le> 0" "js_sign (?cmp b c) \<le> 0" for a b c :: PackageVersion
    using compareVersions_le_trans [of "version c" "version b" "version a"] that by simp
  have "sorted_wrt (\<lambda>a b. js_sign (?cmp a b) \<le> 0) (js_sort ?cmp vs)"
    by (rule sorted_js_sort [of ?cmp, OF total trans])
  then show ?thesis
    unfolding sorted_desc_def by (rule sorted_wrt_mono_rel [rotated]) (rule flip)
qed

lemma find_unique:
  assumes "x \<in> set xs" "P x" "\<forall>y\<in>set xs. P y \<longrightarrow> y = x"
  shows "find P xs = Some x"
  using assms
proof (induction xs)
  case Nil
  then show ?case by simp
next
  case (Cons a xs)
  show ?case
  proof (cases "P a")
    case True
    with Cons.prems(3) have "a = x" by simp
    with True show ?thesis by simp
  next
    case False
    with Cons.prems(1,2) have "x \<in> set xs" by auto
    moreover from Cons.prems(3) have "\<forall>y\<in>set xs. P y \<longrightarrow> y = x" by simp
    ultimately have "find P xs = Some x" using Cons.IH Cons.prems(2) by blast
    with False show ?thesis by simp
  qed
qed

subsection \<open>Publishing\<close>

lemma status_errorResponse: "status (errorResponse m st) = st"
  by (simp add: errorResponse_def)

lemma store_publish_fst: "status (fst (store_publish clk user pn pv tb chk m env)) = 201"
  by (simp add: store_publish_def Let_def)

lemma store_publish_PACKAGES:
  "PACKAGES (snd (store_publish clk user pn pv tb chk m env)) = kv_put (''pkg:'' @ pn) m (PACKAGES env)"
  by (simp add: store_publish_def Let_def)

lemma store_publish_TARBALLS:
  "TARBALLS (snd (store_publish clk user pn pv tb chk m env)) =
     kv_put (pn @ ''/'' @ pv @ ''.tar.gz'')
       \<lparr>r2_body = tb, r2_checksum = chk, r2_publisher = user_id user,
        r2_published_at = now_published_at clk\<rparr> (TARBALLS env)"
  by (simp add: store_publish_def Let_def)

lemma authenticate_Inl: "authenticate clk r env = Inl e \<Longrightarrow> status e = 401"
  by (auto simp: authenticate_def status_errorResponse split: option.splits if_splits)

lemma publish_201:
  assumes "handlePublishPackage h clk r env = (resp, env')" "status resp = 201"
  shows "\<exists>user. authenticate clk r env = Inr user \<and> arrayBuffer r \<noteq> []
     \<and> valid_name (requested_name r) \<and> valid_version (requested_version r)
     \<and> \<not> list_ex (\<lambda>v. version v = requested_version r) (versions_before env (requested_name r))
     \<and> (resp, env') = store_publish clk user (requested_name r) (requested_version r)
          (arrayBuffer r) (h (arrayBuffer r))
          (add_version clk (requested_version r)
             (headers r ''X-Package-Signature'') (headers r ''X-Publisher-Fingerprint'')
             (arrayBuffer r) (h (arrayBuffer r))
             (case kv_get (PACKAGES env) (''pkg:'' @ requested_name r) of
                Some existing \<Rightarrow> existing
              | None \<Rightarrow> new_package clk user (requested_name r)
                          (or_empty (headers r ''X-Package-Description'')))) env"
proof (cases "authenticate clk r env")
  case (Inl e)
  then have "status e = 401" by (rule authenticate_Inl)
  moreover from Inl assms(1) have "resp = e" by (simp add: handlePublishPackage_def)
  ultimately show ?thesis using assms(2) by simp
next
  case (Inr user)
  show ?thesis
    using assms
    unfolding handlePublishPackage_def versions_before_def requested_name_def
      requested_version_def Inr
    by (auto simp: Let_def status_errorResponse new_package_def
        split: if_splits option.splits)
qed

lemma valid_name_nonempty: "valid_name s \<Longrightarrow> s \<noteq> []"
  by (auto simp: valid_name_def)

lemma valid_version_nonempty: "valid_version s \<Longrightarrow> s \<noteq> []"
  by (auto simp: valid_version_def digits_then_dot_def)

text \<open>The record a successful publish stores, and the blob.\<close>

lemma publish_step:
  assumes "handlePublishPackage h clk r env = (resp, env')" "status resp = 201"
  shows "\<exists>m newV. kv_get (PACKAGES env') (''pkg:'' @ requested_name r) = Some m
     \<and> versions m = js_sort (\<lambda>a b. compareVersions (version b) (version a))
                      (versions_before env (requested_name r) @ [newV])
     \<and> version newV = requested_version r \<and> \<not> yanked newV
     \<and> checksum newV = h (arrayBuffer r) \<and> size_bytes newV = length (arrayBuffer r)
     \<and> requested_version r \<notin> version ` set (versions_before env (requested_name r))
     \<and> updated_at m = now_updated_at clk
     \<and> map_option r2_body (kv_get (TARBALLS env')
          (requested_name r @ ''/'' @ requested_version r @ ''.tar.gz'')) = Some (arrayBuffer r)
     \<and> (\<forall>k. k \<noteq> ''pkg:'' @ requested_name r \<longrightarrow> kv_get (PACKAGES env') k = kv_get (PACKAGES env) k)"
proof -
  from publish_201 [OF assms] obtain user where
    nodup: "\<not> list_ex (\<lambda>v. version v = requested_version r) (versions_before env (requested_name r))"
    and st: "(resp, env') = store_publish clk user (requested_name r) (requested_version r)
          (arrayBuffer r) (h (arrayBuffer r))
          (add_version clk (requested_version r)
             (headers r ''X-Package-Signature'') (headers r ''X-Publisher-Fingerprint'')
             (arrayBuffer r) (h (arrayBuffer r))
             (case kv_get (PACKAGES env) (''pkg:'' @ requested_name r) of
                Some existing \<Rightarrow> existing
              | None \<Rightarrow> new_package clk user (requested_name r)
                          (or_empty (headers r ''X-Package-Description'')))) env"
    by blast
  let ?base = "case kv_get (PACKAGES env) (''pkg:'' @ requested_name r) of
                Some existing \<Rightarrow> existing
              | None \<Rightarrow> new_package clk user (requested_name r)
                          (or_empty (headers r ''X-Package-Description''))"
  let ?m = "add_version clk (requested_version r)
             (headers r ''X-Package-Signature'') (headers r ''X-Publisher-Fingerprint'')
             (arrayBuffer r) (h (arrayBuffer r)) ?base"
  have vb: "versions ?base = versions_before env (requested_name r)"
    by (simp add: versions_before_def new_package_def split: option.splits)
  from st have env': "env' = snd (store_publish clk user (requested_name r) (requested_version r)
          (arrayBuffer r) (h (arrayBuffer r)) ?m env)"
    by (metis snd_conv)
  have P: "PACKAGES env' = kv_put (''pkg:'' @ requested_name r) ?m (PACKAGES env)"
    unfolding env' by (rule store_publish_PACKAGES)
  have T: "kv_get (TARBALLS env') (requested_name r @ ''/'' @ requested_version r @ ''.tar.gz'')
      = Some \<lparr>r2_body = arrayBuffer r, r2_checksum = h (arrayBuffer r),
              r2_publisher = user_id user, r2_published_at = now_published_at clk\<rparr>"
    unfolding env' store_publish_TARBALLS by (simp add: kv_get_put)
  let ?newV = "\<lparr>version = requested_version r, published_at = now_published_at clk,
                 yanked = False, checksum = h (arrayBuffer r), size_bytes = length (arrayBuffer r),
                 download_url = None,
                 signature = or_undefined (headers r ''X-Package-Signature''),
                 publisher_fingerprint = or_undefined (headers r ''X-Publisher-Fingerprint'')\<rparr>"
  have vm: "versions ?m = js_sort (\<lambda>a b. compareVersions (version b) (version a))
                      (versions_before env (requested_name r) @ [?newV])"
    using vb by (simp add: add_version_def Let_def)
  have um: "updated_at ?m = now_updated_at clk"
    by (simp add: add_version_def Let_def)
  have nd: "requested_version r \<notin> version ` set (versions_before env (requested_name r))"
    using nodup by (auto simp: list_ex_iff)
  have "kv_get (PACKAGES env') (''pkg:'' @ requested_name r) = Some ?m"
    by (simp add: P kv_get_put)
  moreover have "\<forall>k. k \<noteq> ''pkg:'' @ requested_name r \<longrightarrow> kv_get (PACKAGES env') k = kv_get (PACKAGES env) k"
    by (simp add: P kv_get_put)
  ultimately show ?thesis
    using vm um nd T by (intro exI [of _ ?m] exI [of _ ?newV]) simp
qed

text \<open>
  C3: after a publish of (name, version) that answered 201, a second publish of the same
  name and version by an authenticated caller with a non-empty body answers 409 and
  leaves the whole environment as it was; the stored version record (version, checksum,
  size) and the stored blob are those of the first publish.
\<close>

theorem republish_conflict:
  assumes "handlePublishPackage h clk1 r1 env = (resp1, env1)" and "status resp1 = 201"
    and "headers r2 ''X-Package-Name'' = headers r1 ''X-Package-Name''"
    and "headers r2 ''X-Package-Version'' = headers r1 ''X-Package-Version''"
    and "authenticate clk2 r2 env1 = Inr user2" and "arrayBuffer r2 \<noteq> []"
  shows "handlePublishPackage h clk2 r2 env1 =
           (errorResponse (''Version '' @ requested_version r1 @ '' already exists'') 409, env1)
     \<and> (\<exists>m v. kv_get (PACKAGES env1) (''pkg:'' @ requested_name r1) = Some m
            \<and> find (\<lambda>v. version v = requested_version r1) (versions m) = Some v
            \<and> version v = requested_version r1
            \<and> checksum v = h (arrayBuffer r1) \<and> size_bytes v = length (arrayBuffer r1))
     \<and> map_option r2_body (kv_get (TARBALLS env1)
          (requested_name r1 @ ''/'' @ requested_version r1 @ ''.tar.gz'')) = Some (arrayBuffer r1)"
proof -
  from publish_201 [OF assms(1,2)] have vn: "valid_name (requested_name r1)"
    and vv: "valid_version (requested_version r1)" by blast+
  from publish_step [OF assms(1,2)] obtain m newV where
    m: "kv_get (PACKAGES env1) (''pkg:'' @ requested_name r1) = Some m"
    and vs: "versions m = js_sort (\<lambda>a b. compareVersions (version b) (version a))
                      (versions_before env (requested_name r1) @ [newV])"
    and nv: "version newV = requested_version r1" "checksum newV = h (arrayBuffer r1)"
      "size_bytes newV = length (arrayBuffer r1)"
    and nd: "requested_version r1 \<notin> version ` set (versions_before env (requested_name r1))"
    and blob: "map_option r2_body (kv_get (TARBALLS env1)
          (requested_name r1 @ ''/'' @ requested_version r1 @ ''.tar.gz'')) = Some (arrayBuffer r1)"
    by blast
  have setm: "set (versions m) = insert newV (set (versions_before env (requested_name r1)))"
    by (simp add: vs set_js_sort)
  have fnd: "find (\<lambda>v. version v = requested_version r1) (versions m) = Some newV"
  proof (rule find_unique)
    show "newV \<in> set (versions m)" by (simp add: setm)
    show "version newV = requested_version r1" by (rule nv(1))
    show "\<forall>y\<in>set (versions m). version y = requested_version r1 \<longrightarrow> y = newV"
      using nd by (auto simp: setm image_iff)
  qed
  have ex: "list_ex (\<lambda>v. version v = requested_version r1) (versions m)"
    using nv(1) by (auto simp: list_ex_iff setm)
  have n2: "or_empty (headers r2 ''X-Package-Name'') = requested_name r1"
    and v2: "or_empty (headers r2 ''X-Package-Version'') = requested_version r1"
    using assms(3,4) by (simp_all add: requested_name_def requested_version_def)
  have "handlePublishPackage h clk2 r2 env1 =
           (errorResponse (''Version '' @ requested_version r1 @ '' already exists'') 409, env1)"
    unfolding handlePublishPackage_def assms(5) n2 v2
    using assms(6) vn vv valid_name_nonempty [OF vn] valid_version_nonempty [OF vv] m ex
    by (simp add: Let_def)
  with m fnd nv blob show ?thesis by blast
qed

text \<open>
  C10: a publish that answers 201 for a package that did not exist stores a record whose
  licence is \<open>MIT\<close>, whose keyword list is empty and whose authors are exactly the
  publisher's display name, whatever else the request carries; the description is the
  one of the request.
\<close>

theorem first_publish_defaults:
  assumes "kv_get (PACKAGES env) (''pkg:'' @ requested_name r) = None"
    and "handlePublishPackage h clk r env = (resp, env')" and "status resp = 201"
  shows "\<exists>user m. authenticate clk r env = Inr user
     \<and> kv_get (PACKAGES env') (''pkg:'' @ requested_name r) = Some m
     \<and> license m = ''MIT'' \<and> pkg_keywords m = [] \<and> authors m = [user_name user]
     \<and> description m = or_empty (headers r ''X-Package-Description'')"
proof -
  from publish_201 [OF assms(2,3)] obtain user where
    au: "authenticate clk r env = Inr user"
    and st: "(resp, env') = store_publish clk user (requested_name r) (requested_version r)
          (arrayBuffer r) (h (arrayBuffer r))
          (add_version clk (requested_version r)
             (headers r ''X-Package-Signature'') (headers r ''X-Publisher-Fingerprint'')
             (arrayBuffer r) (h (arrayBuffer r))
             (case kv_get (PACKAGES env) (''pkg:'' @ requested_name r) of
                Some existing \<Rightarrow> existing
              | None \<Rightarrow> new_package clk user (requested_name r)
                          (or_empty (headers r ''X-Package-Description'')))) env"
    by blast
  let ?m = "add_version clk (requested_version r)
             (headers r ''X-Package-Signature'') (headers r ''X-Publisher-Fingerprint'')
             (arrayBuffer r) (h (arrayBuffer r))
             (new_package clk user (requested_name r)
                          (or_empty (headers r ''X-Package-Description'')))"
  from st assms(1) have "env' = snd (store_publish clk user (requested_name r) (requested_version r)
          (arrayBuffer r) (h (arrayBuffer r)) ?m env)"
    by (metis option.simps(4) snd_conv)
  then have "PACKAGES env' = kv_put (''pkg:'' @ requested_name r) ?m (PACKAGES env)"
    by (simp only: store_publish_PACKAGES)
  then have "kv_get (PACKAGES env') (''pkg:'' @ requested_name r) = Some ?m"
    by (simp add: kv_get_put)
  moreover have "license ?m = ''MIT'' \<and> pkg_keywords ?m = [] \<and> authors ?m = [user_name user]
     \<and> description ?m = or_empty (headers r ''X-Package-Description'')"
    by (simp add: add_version_def new_package_def Let_def)
  ultimately show ?thesis using au by blast
qed

lemma publish_all_same_name:
  assumes "\<forall>cr\<in>set reqs. requested_name (snd cr) = n"
    and "publish_all h reqs env = (resps, env')"
    and "\<forall>resp\<in>set resps. status resp = 201" and "reqs \<noteq> []"
  shows "\<exists>m. kv_get (PACKAGES env') (''pkg:'' @ n) = Some m
     \<and> length (versions m) = length (versions_before env n) + length reqs
     \<and> sorted_desc (versions m)
     \<and> version ` set (versions m) =
         version ` set (versions_before env n) \<union> (requested_version \<circ> snd) ` set reqs
     \<and> (distinct (map version (versions_before env n)) \<longrightarrow> distinct (map version (versions m)))
     \<and> updated_at m = now_updated_at (fst (last reqs))"
  using assms
proof (induction reqs arbitrary: env resps env')
  case Nil
  then show ?case by simp
next
  case (Cons cr rest)
  obtain clk r where cr: "cr = (clk, r)" by (cases cr)
  obtain resp env1 where p1: "handlePublishPackage h clk r env = (resp, env1)"
    by (cases "handlePublishPackage h clk r env")
  obtain resps' env2 where p2: "publish_all h rest env1 = (resps', env2)"
    by (cases "publish_all h rest env1")
  from Cons.prems(2) cr p1 p2 have res: "resps = resp # resps'" "env' = env2" by auto
  with Cons.prems(3) have ok1: "status resp = 201" and ok2: "\<forall>x\<in>set resps'. status x = 201"
    by auto
  from Cons.prems(1) cr have nm: "requested_name r = n"
    and nms: "\<forall>cr\<in>set rest. requested_name (snd cr) = n" by auto
  from publish_step [OF p1 ok1] nm obtain m1 newV where
    m1: "kv_get (PACKAGES env1) (''pkg:'' @ n) = Some m1"
    and vs: "versions m1 = js_sort (\<lambda>a b. compareVersions (version b) (version a))
                      (versions_before env n @ [newV])"
    and nv: "version newV = requested_version r"
    and nd: "requested_version r \<notin> version ` set (versions_before env n)"
    and up: "updated_at m1 = now_updated_at clk"
    by blast
  have len1: "length (versions m1) = length (versions_before env n) + 1"
    by (simp add: vs length_js_sort)
  have sd1: "sorted_desc (versions m1)" unfolding vs by (rule sorted_desc_js_sort)
  have set1: "version ` set (versions m1) =
      insert (requested_version r) (version ` set (versions_before env n))"
    by (simp add: vs set_js_sort nv)
  have dist1: "distinct (map version (versions m1))" if "distinct (map version (versions_before env n))"
    using that nd nv by (simp add: vs distinct_map_js_sort)
  have vb1: "versions_before env1 n = versions m1"
    using m1 by (simp add: versions_before_def)
  show ?case
  proof (cases "rest = []")
    case True
    with p2 res have "env' = env1" by simp
    with m1 len1 sd1 set1 dist1 up True cr show ?thesis by auto
  next
    case False
    from Cons.IH [OF nms p2 ok2 False] vb1 obtain m where
      m: "kv_get (PACKAGES env2) (''pkg:'' @ n) = Some m"
      and len: "length (versions m) = length (versions m1) + length rest"
      and sd: "sorted_desc (versions m)"
      and st: "version ` set (versions m) =
         version ` set (versions m1) \<union> (requested_version \<circ> snd) ` set rest"
      and ds: "distinct (map version (versions m1)) \<longrightarrow> distinct (map version (versions m))"
      and u: "updated_at m = now_updated_at (fst (last rest))"
      by auto
    have "version ` set (versions m) =
         version ` set (versions_before env n) \<union> (requested_version \<circ> snd) ` set (cr # rest)"
      using st set1 cr by auto
    moreover have "length (versions m) = length (versions_before env n) + length (cr # rest)"
      using len len1 by simp
    moreover have "updated_at m = now_updated_at (fst (last (cr # rest)))"
      using u False by simp
    ultimately show ?thesis
      using m sd ds dist1 res(2) by blast
  qed
qed

theorem republish_conflict_witness:
  "status (fst (handlePublishPackage example_hash (example_clock ''2025-01-01'')
       (publish_request ''tok-alice'' ''yaml-lib'' ''1.2.0'' [1]) env0)) = 201
   \<and> handlePublishPackage example_hash (example_clock ''2025-01-02'')
       (publish_request ''tok-bob'' ''yaml-lib'' ''1.2.0'' [0, 0])
       (snd (handlePublishPackage example_hash (example_clock ''2025-01-01'')
          (publish_request ''tok-alice'' ''yaml-lib'' ''1.2.0'' [1]) env0))
     = (errorResponse ''Version 1.2.0 already exists'' 409,
        snd (handlePublishPackage example_hash (example_clock ''2025-01-01'')
          (publish_request ''tok-alice'' ''yaml-lib'' ''1.2.0'' [1]) env0))
   \<and> map_option r2_body (kv_get (TARBALLS
        (snd (handlePublishPackage example_hash (example_clock ''2025-01-01'')
          (publish_request ''tok-alice'' ''yaml-lib'' ''1.2.0'' [1]) env0)))
        ''yaml-lib/1.2.0.tar.gz'') = Some [1]"
proof -
  let ?r1 = "publish_request ''tok-alice'' ''yaml-lib'' ''1.2.0'' [1]"
  let ?r2 = "publish_request ''tok-bob'' ''yaml-lib'' ''1.2.0'' [0, 0]"
  let ?p1 = "handlePublishPackage example_hash (example_clock ''2025-01-01'') ?r1 env0"
  have h1: "?p1 = (fst ?p1, snd ?p1)" by simp
  have h2: "status (fst ?p1) = 201" by code_simp
  have h3: "headers ?r2 ''X-Package-Name'' = headers ?r1 ''X-Package-Name''"
    by (simp add: publish_request_def)
  have h4: "headers ?r2 ''X-Package-Version'' = headers ?r1 ''X-Package-Version''"
    by (simp add: publish_request_def)
  have h5: "authenticate (example_clock ''2025-01-02'') ?r2 (snd ?p1) = Inr bob" by code_simp
  have h6: "arrayBuffer ?r2 \<noteq> []" by (simp add: publish_request_def)
  have n: "requested_name ?r1 = ''yaml-lib''" "requested_version ?r1 = ''1.2.0''"
    "arrayBuffer ?r1 = [1]"
    by (simp_all add: requested_name_def requested_version_def publish_request_def or_empty_def)
  from republish_conflict [OF h1 h2 h3 h4 h5 h6] h2 show ?thesis
    unfolding n by simp
qed

theorem first_publish_defaults_witness:
  "kv_get (PACKAGES env0) ''pkg:yaml-lib'' = None
   \<and> status (fst (handlePublishPackage example_hash (example_clock ''2025-01-01'')
       (publish_request ''tok-alice'' ''yaml-lib'' ''1.2.0'' [1]) env0)) = 201
   \<and> headers (publish_request ''tok-alice'' ''yaml-lib'' ''1.2.0'' [1]) ''X-Package-License''
       = Some ''GPL-3.0''
   \<and> (\<exists>m. kv_get (PACKAGES (snd (handlePublishPackage example_hash (example_clock ''2025-01-01'')
          (publish_request ''tok-alice'' ''yaml-lib'' ''1.2.0'' [1]) env0))) ''pkg:yaml-lib'' = Some m
        \<and> license m = ''MIT'' \<and> pkg_keywords m = [] \<and> authors m = [''Alice'']
        \<and> description m = ''a package'')"
proof -
  let ?r1 = "publish_request ''tok-alice'' ''yaml-lib'' ''1.2.0'' [1]"
  let ?p1 = "handlePublishPackage example_hash (example_clock ''2025-01-01'') ?r1 env0"
  have n: "requested_name ?r1 = ''yaml-lib''"
    by (simp add: requested_name_def publish_request_def or_empty_def)
  have h0: "kv_get (PACKAGES env0) (''pkg:'' @ requested_name ?r1) = None"
    unfolding n by code_simp
  have h1: "?p1 = (fst ?p1, snd ?p1)" by simp
  have h2: "status (fst ?p1) = 201" by code_simp
  have a: "authenticate (example_clock ''2025-01-01'') ?r1 env0 = Inr alice" by code_simp
  have l: "headers ?r1 ''X-Package-License'' = Some ''GPL-3.0''"
    by (simp add: publish_request_def)
  have d: "or_empty (headers ?r1 ''X-Package-Description'') = ''a package''"
    by (simp add: publish_request_def or_empty_def)
  have u: "user_name alice = ''Alice''" by (simp add: alice_def)
  from first_publish_defaults [OF h0 h1 h2] a u d n
  have "\<exists>m. kv_get (PACKAGES (snd ?p1)) ''pkg:yaml-lib'' = Some m
        \<and> license m = ''MIT'' \<and> pkg_keywords m = [] \<and> authors m = [''Alice'']
        \<and> description m = ''a package''"
    by auto
  moreover have "kv_get (PACKAGES env0) ''pkg:yaml-lib'' = None" using h0 n by simp
  ultimately show ?thesis using h2 l by blast
qed

lemma get_after:
  assumes "kv_get (PACKAGES env) (''pkg:'' @ n) = Some m0"
  shows "\<exists>m. fst (handleGetPackage n env) = Response 200 (MetadataJson m)
     \<and> map version (versions m) = map version (versions m0)
     \<and> updated_at m = updated_at m0"
  using assms by (simp add: handleGetPackage_def Let_def comp_def)

lemma sorted_desc_map_version:
  "map version vs = map version ws \<Longrightarrow> sorted_desc vs \<Longrightarrow> sorted_desc ws"
proof -
  assume eq: "map version vs = map version ws" and s: "sorted_desc vs"
  have "sorted_desc xs \<longleftrightarrow>
      sorted_wrt (\<lambda>a b. js_sign (compareVersions a b) \<ge> 0) (map version xs)" for xs
    by (simp add: sorted_desc_def sorted_wrt_map)
  with eq s show ?thesis by simp
qed

text \<open>
  C8: starting from a store without the package, after N publishes of that package that
  all answered 201 (so of N distinct versions), \<open>handleGetPackage\<close> returns a record with N
  versions, sorted descending by \<open>compareVersions\<close>, and \<open>updated_at\<close> of the last publish;
  and every publish that answers 201 stores a sorted list, one longer than before, and
  sets \<open>updated_at\<close>.
\<close>

theorem publishes_sorted:
  assumes "kv_get (PACKAGES env) (''pkg:'' @ n) = None"
    and "\<forall>cr\<in>set reqs. requested_name (snd cr) = n"
    and "publish_all h reqs env = (resps, env')"
    and "\<forall>resp\<in>set resps. status resp = 201" and "reqs \<noteq> []"
  shows "(\<exists>m. fst (handleGetPackage n env') = Response 200 (MetadataJson m)
     \<and> length (versions m) = length reqs \<and> sorted_desc (versions m)
     \<and> distinct (map version (versions m))
     \<and> version ` set (versions m) = (requested_version \<circ> snd) ` set reqs
     \<and> updated_at m = now_updated_at (fst (last reqs)))
   \<and> (\<forall>clk r e rsp e1. handlePublishPackage h clk r e = (rsp, e1) \<and> status rsp = 201 \<longrightarrow>
         (\<exists>m. kv_get (PACKAGES e1) (''pkg:'' @ requested_name r) = Some m
            \<and> sorted_desc (versions m)
            \<and> length (versions m) = Suc (length (versions_before e (requested_name r)))
            \<and> updated_at m = now_updated_at clk))"
proof -
  have step: "\<exists>m. kv_get (PACKAGES e1) (''pkg:'' @ requested_name r) = Some m
            \<and> sorted_desc (versions m)
            \<and> length (versions m) = Suc (length (versions_before e (requested_name r)))
            \<and> updated_at m = now_updated_at clk"
    if "handlePublishPackage h clk r e = (rsp, e1)" "status rsp = 201" for clk r e rsp e1
  proof -
    from publish_step [OF that] obtain m newV where
      "kv_get (PACKAGES e1) (''pkg:'' @ requested_name r) = Some m"
      "versions m = js_sort (\<lambda>a b. compareVersions (version b) (version a))
                      (versions_before e (requested_name r) @ [newV])"
      "updated_at m = now_updated_at clk" by blast
    then show ?thesis by (simp add: sorted_desc_js_sort length_js_sort)
  qed
  have vb: "versions_before env n = []" using assms(1) by (simp add: versions_before_def)
  from publish_all_same_name [OF assms(2-5)] vb obtain m0 where
    m0: "kv_get (PACKAGES env') (''pkg:'' @ n) = Some m0"
    and len: "length (versions m0) = length reqs" and sd: "sorted_desc (versions m0)"
    and st: "version ` set (versions m0) = (requested_version \<circ> snd) ` set reqs"
    and ds: "distinct (map version (versions m0))"
    and up: "updated_at m0 = now_updated_at (fst (last reqs))"
    by auto
  from get_after [OF m0] obtain m where
    m: "fst (handleGetPackage n env') = Response 200 (MetadataJson m)"
    and mv: "map version (versions m) = map version (versions m0)"
    and mu: "updated_at m = updated_at m0" by blast
  have "length (versions m) = length reqs" using mv len by (metis length_map)
  moreover have "sorted_desc (versions m)" using sorted_desc_map_version [OF mv [symmetric] sd] .
  moreover have "distinct (map version (versions m))" using ds mv by simp
  moreover have "version ` set (versions m) = (requested_version \<circ> snd) ` set reqs"
    using st mv by (metis list.set_map)
  ultimately have "\<exists>m. fst (handleGetPackage n env') = Response 200 (MetadataJson m)
     \<and> length (versions m) = length reqs \<and> sorted_desc (versions m)
     \<and> distinct (map version (versions m))
     \<and> version ` set (versions m) = (requested_version \<circ> snd) ` set reqs
     \<and> updated_at m = now_updated_at (fst (last reqs))"
    using m mu up by auto
  moreover have "\<forall>clk r e rsp e1. handlePublishPackage h clk r e = (rsp, e1) \<and> status rsp = 201 \<longrightarrow>
         (\<exists>m. kv_get (PACKAGES e1) (''pkg:'' @ requested_name r) = Some m
            \<and> sorted_desc (versions m)
            \<and> length (versions m) = Suc (length (versions_before e (requested_name r)))
            \<and> updated_at m = now_updated_at clk)"
  proof (intro allI impI)
    fix clk r e rsp e1
    assume "handlePublishPackage h clk r e = (rsp, e1) \<and> status rsp = 201"
    then have "handlePublishPackage h clk r e = (rsp, e1)" "status rsp = 201" by simp_all
    then show "\<exists>m. kv_get (PACKAGES e1) (''pkg:'' @ requested_name r) = Some m
            \<and> sorted_desc (versions m)
            \<and> length (versions m) = Suc (length (versions_before e (requested_name r)))
            \<and> updated_at m = now_updated_at clk" by (rule step)
  qed
  ultimately show ?thesis by (rule conjI)
qed

theorem publishes_sorted_witness:
  "kv_get (PACKAGES env0) ''pkg:yaml-lib'' = None
   \<and> map (requested_name \<circ> snd) example_reqs = [''yaml-lib'', ''yaml-lib'']
   \<and> map (requested_version \<circ> snd) example_reqs = [''1.2.0'', ''1.10.0'']
   \<and> map status (fst (publish_all example_hash example_reqs env0)) = [201, 201]
   \<and> (\<exists>m. fst (handleGetPackage ''yaml-lib'' (snd (publish_all example_hash example_reqs env0)))
            = Response 200 (MetadataJson m)
        \<and> length (versions m) = 2 \<and> sorted_desc (versions m)
        \<and> version ` set (versions m) = {''1.2.0'', ''1.10.0''}
        \<and> updated_at m = ''2025-01-02'')"
proof -
  let ?p = "publish_all example_hash example_reqs env0"
  have h1: "kv_get (PACKAGES env0) (''pkg:'' @ ''yaml-lib'') = None" by code_simp
  have nm: "map (requested_name \<circ> snd) example_reqs = [''yaml-lib'', ''yaml-lib'']" by code_simp
  have vs: "map (requested_version \<circ> snd) example_reqs = [''1.2.0'', ''1.10.0'']" by code_simp
  have h2: "\<forall>cr\<in>set example_reqs. requested_name (snd cr) = ''yaml-lib''"
  proof -
    have "\<forall>x\<in>set (map (requested_name \<circ> snd) example_reqs). x = ''yaml-lib''"
      unfolding nm by simp
    then show ?thesis by simp
  qed
  have h3: "?p = (fst ?p, snd ?p)" by simp
  have st: "map status (fst ?p) = [201, 201]" by code_simp
  have h4: "\<forall>resp\<in>set (fst ?p). status resp = 201"
  proof -
    have "\<forall>x\<in>set (map status (fst ?p)). x = 201" unfolding st by simp
    then show ?thesis by simp
  qed
  have h5: "example_reqs \<noteq> []" by (simp add: example_reqs_def)
  have l: "length example_reqs = 2" by (simp add: example_reqs_def)
  have u: "now_updated_at (fst (last example_reqs)) = ''2025-01-02''"
    by (simp add: example_reqs_def example_clock_def)
  have s: "(requested_version \<circ> snd) ` set example_reqs = {''1.2.0'', ''1.10.0''}"
    using arg_cong [OF vs, of set] by (simp only: list.set_map list.set)
  from publishes_sorted [OF h1 h2 h3 h4 h5, THEN conjunct1] l u s
  have "\<exists>m. fst (handleGetPackage ''yaml-lib'' (snd ?p)) = Response 200 (MetadataJson m)
        \<and> length (versions m) = 2 \<and> sorted_desc (versions m)
        \<and> version ` set (versions m) = {''1.2.0'', ''1.10.0''}
        \<and> updated_at m = ''2025-01-02''"
    by auto
  with h1 nm vs st show ?thesis by simp
qed

text \<open>
  C1 does not hold of the handler: \<open>bob\<close> owns nothing and is not the admin, \<open>json-lib\<close>
  exists and belongs to \<open>alice\<close>, and \<open>bob\<close>'s publish of \<open>json-lib 3.0.0\<close> answers 201,
  with the version and the blob stored. The yank handler refuses the same caller (403).
\<close>

theorem publish_by_non_owner_accepted:
  "verifyToken (example_clock ''2025-01-01'') ''tok-bob'' env0 = Some bob
   \<and> user_id bob \<noteq> ''admin'' \<and> ''json-lib'' \<notin> set (user_packages bob)
   \<and> kv_get (PACKAGES env0) ''pkg:json-lib'' = Some json_lib
   \<and> status (fst (handlePublishPackage example_hash (example_clock ''2025-01-01'')
        (publish_request ''tok-bob'' ''json-lib'' ''3.0.0'' [1, 2, 3]) env0)) = 201
   \<and> map version (versions_before
        (snd (handlePublishPackage example_hash (example_clock ''2025-01-01'')
          (publish_request ''tok-bob'' ''json-lib'' ''3.0.0'' [1, 2, 3]) env0)) ''json-lib'')
       = [''3.0.0'', ''2.0.0'', ''1.0.0'']
   \<and> map_option r2_body (kv_get (TARBALLS
        (snd (handlePublishPackage example_hash (example_clock ''2025-01-01'')
          (publish_request ''tok-bob'' ''json-lib'' ''3.0.0'' [1, 2, 3]) env0)))
        ''json-lib/3.0.0.tar.gz'') = Some [1, 2, 3]
   \<and> status (fst (handleYankVersion ''json-lib'' ''1.0.0'' True (example_clock ''2025-01-01'')
        (auth_request ''tok-bob'') env0)) = 403"
  by code_simp

subsection \<open>Searching\<close>

lemma starts_with_iff: "starts_with s q \<longleftrightarrow> (\<exists>post. s = q @ post)"
  by (induction s q rule: starts_with.induct) auto

lemma js_includes_iff: "js_includes s q \<longleftrightarrow> substring_of q s"
proof (induction s)
  case Nil
  then show ?case by (auto simp: substring_of_def)
next
  case (Cons c cs)
  have "substring_of q (c # cs) \<longleftrightarrow> (\<exists>post. c # cs = q @ post) \<or> substring_of q cs"
  proof
    assume "substring_of q (c # cs)"
    then obtain pre post where e: "c # cs = pre @ q @ post" by (auto simp: substring_of_def)
    show "(\<exists>post. c # cs = q @ post) \<or> substring_of q cs"
    proof (cases pre)
      case Nil
      with e show ?thesis by auto
    next
      case (Cons p pre')
      with e have "cs = pre' @ q @ post" by simp
      then show ?thesis by (auto simp: substring_of_def)
    qed
  next
    assume "(\<exists>post. c # cs = q @ post) \<or> substring_of q cs"
    then show "substring_of q (c # cs)"
    proof
      assume "\<exists>post. c # cs = q @ post"
      then obtain post where "c # cs = [] @ q @ post" by auto
      then show ?thesis unfolding substring_of_def by blast
    next
      assume "substring_of q cs"
      then obtain pre post where "cs = pre @ q @ post" by (auto simp: substring_of_def)
      then have "c # cs = (c # pre) @ q @ post" by simp
      then show ?thesis unfolding substring_of_def by blast
    qed
  qed
  with Cons show ?case by (simp add: starts_with_iff)
qed

lemma search_match_iff:
  "search_match q m \<longleftrightarrow>
     substring_of q (toLowerCase (name m)) \<or> substring_of q (toLowerCase (description m))
     \<or> (\<exists>k\<in>set (pkg_keywords m). substring_of q (toLowerCase k))"
  by (simp add: search_match_def js_includes_iff list_ex_iff)

lemma substring_of_empty: "substring_of [] s"
  unfolding substring_of_def by (intro exI [of _ "[]"] exI [of _ s]) simp

lemma search_match_empty: "search_match [] m"
  by (simp add: search_match_iff substring_of_empty)

lemma foldl_collect:
  "foldl (\<lambda>acc key. case get key of None \<Rightarrow> acc
                     | Some m \<Rightarrow> if P m then acc @ [f m] else acc) acc keys
     = acc @ map f (filter P (List.map_filter get keys))"
  by (induction keys arbitrary: acc) (auto split: option.splits)

lemma set_map_filter: "set (List.map_filter f xs) = {y. \<exists>x\<in>set xs. f x = Some y}"
  by (induction xs) (auto split: option.splits)

lemma length_map_filter: "length (List.map_filter f xs) \<le> length xs"
  by (induction xs) (auto split: option.splits)

lemma set_keys_with_prefix:
  "set (keys_with_prefix pre s) = {k \<in> fst ` set s. starts_with k pre}"
  by (auto simp: keys_with_prefix_def)

lemma kv_get_in_keys: "kv_get s k = Some m \<Longrightarrow> k \<in> fst ` set s"
  by (auto simp: kv_get_def dest: map_of_SomeD intro: rev_image_eqI)

text \<open>One page: a part of the keys, and all of them when there are 1000 at most.\<close>

lemma set_kv_list_subset: "set (kv_list pre s) \<subseteq> set (keys_with_prefix pre s)"
proof -
  have "set (kv_list pre s) \<subseteq> set (sort (keys_with_prefix pre s))"
    unfolding kv_list_def by (rule set_take_subset)
  then show ?thesis by simp
qed

lemma set_kv_list_page:
  "length (keys_with_prefix pre s) \<le> 1000 \<Longrightarrow> set (kv_list pre s) = set (keys_with_prefix pre s)"
  by (simp add: kv_list_def)

lemma length_kv_list: "length (kv_list pre s) \<le> 1000"
  by (simp add: kv_list_def)

lemma listed_records_subset:
  "set (List.map_filter (kv_get (PACKAGES env)) (kv_list ''pkg:'' (PACKAGES env)))
     \<subseteq> stored_packages env"
  using set_kv_list_subset [of "''pkg:''" "PACKAGES env"]
  by (auto simp: set_map_filter set_keys_with_prefix stored_packages_def)

lemma listed_records_page:
  assumes "length (keys_with_prefix ''pkg:'' (PACKAGES env)) \<le> 1000"
  shows "set (List.map_filter (kv_get (PACKAGES env)) (kv_list ''pkg:'' (PACKAGES env)))
     = stored_packages env"
proof -
  have "set (List.map_filter (kv_get (PACKAGES env)) (kv_list ''pkg:'' (PACKAGES env)))
      = {m. \<exists>k\<in>set (keys_with_prefix ''pkg:'' (PACKAGES env)). kv_get (PACKAGES env) k = Some m}"
    by (simp only: set_map_filter set_kv_list_page [OF assms])
  also have "\<dots> = stored_packages env"
    by (auto simp: set_keys_with_prefix stored_packages_def dest: kv_get_in_keys)
  finally show ?thesis .
qed

lemma search_results:
  "handleSearchPackages query env = Response 200 (SearchJson
     (filter (search_match (toLowerCase query))
        (List.map_filter (kv_get (PACKAGES env)) (kv_list ''pkg:'' (PACKAGES env)))))"
  using foldl_collect [where get = "kv_get (PACKAGES env)"
      and P = "search_match (toLowerCase query)" and f = "\<lambda>m. m" and acc = "[]"]
  by (simp add: handleSearchPackages_def Let_def)

text \<open>
  What the search does for every store: its results are stored records that match, and
  there are 1000 of them at most; when the store has at most 1000 package keys, they are
  exactly the stored records that match.
\<close>

lemma search_on_one_page:
  "\<exists>results. handleSearchPackages query env = Response 200 (SearchJson results)
     \<and> length results \<le> 1000
     \<and> set results \<subseteq> {m \<in> stored_packages env.
          substring_of (toLowerCase query) (toLowerCase (name m))
          \<or> substring_of (toLowerCase query) (toLowerCase (description m))
          \<or> (\<exists>k\<in>set (pkg_keywords m). substring_of (toLowerCase query) (toLowerCase k))}
     \<and> (length (keys_with_prefix ''pkg:'' (PACKAGES env)) \<le> 1000 \<longrightarrow>
          set results = {m \<in> stored_packages env.
            substring_of (toLowerCase query) (toLowerCase (name m))
            \<or> substring_of (toLowerCase query) (toLowerCase (description m))
            \<or> (\<exists>k\<in>set (pkg_keywords m). substring_of (toLowerCase query) (toLowerCase k))})"
proof -
  let ?all = "List.map_filter (kv_get (PACKAGES env)) (kv_list ''pkg:'' (PACKAGES env))"
  let ?res = "filter (search_match (toLowerCase query)) ?all"
  have r: "handleSearchPackages query env = Response 200 (SearchJson ?res)"
    by (rule search_results)
  have "length ?res \<le> length ?all" by simp
  also have "\<dots> \<le> length (kv_list ''pkg:'' (PACKAGES env))" by (rule length_map_filter)
  also have "\<dots> \<le> 1000" by (rule length_kv_list)
  finally have l: "length ?res \<le> 1000" .
  have s: "set ?res \<subseteq> {m \<in> stored_packages env.
          substring_of (toLowerCase query) (toLowerCase (name m))
          \<or> substring_of (toLowerCase query) (toLowerCase (description m))
          \<or> (\<exists>k\<in>set (pkg_keywords m). substring_of (toLowerCase query) (toLowerCase k))}"
    using listed_records_subset [of env] by (auto simp: search_match_iff)
  have e: "set ?res = {m \<in> stored_packages env.
          substring_of (toLowerCase query) (toLowerCase (name m))
          \<or> substring_of (toLowerCase query) (toLowerCase (description m))
          \<or> (\<exists>k\<in>set (pkg_keywords m). substring_of (toLowerCase query) (toLowerCase k))}"
    if "length (keys_with_prefix ''pkg:'' (PACKAGES env)) \<le> 1000"
    unfolding set_filter listed_records_page [OF that] search_match_iff by simp
  from r l s e show ?thesis by blast
qed

text \<open>Every key of the page has a binding, so the page gives as many records as keys.\<close>

lemma length_map_filter_total:
  "\<forall>x\<in>set xs. f x \<noteq> None \<Longrightarrow> length (List.map_filter f xs) = length xs"
  by (induction xs) (auto split: option.splits)

lemma kv_get_listed: "k \<in> set (kv_list pre s) \<Longrightarrow> kv_get s k \<noteq> None"
proof -
  assume "k \<in> set (kv_list pre s)"
  with set_kv_list_subset [of pre s] have "k \<in> fst ` set s"
    by (auto simp: set_keys_with_prefix)
  then show ?thesis by (simp add: kv_get_def map_of_eq_None_iff)
qed

lemma length_kv_list_eq:
  "length (kv_list pre s) = min 1000 (length (keys_with_prefix pre s))"
  by (simp add: kv_list_def min.commute)

lemma filter_search_empty: "filter (search_match []) xs = xs"
  by (simp add: search_match_empty)

text \<open>The empty query returns one record for each key of the page.\<close>

lemma search_empty_length:
  "\<exists>results. handleSearchPackages [] env = Response 200 (SearchJson results)
     \<and> length results = min 1000 (length (keys_with_prefix ''pkg:'' (PACKAGES env)))
     \<and> set results \<subseteq> stored_packages env"
proof -
  let ?all = "List.map_filter (kv_get (PACKAGES env)) (kv_list ''pkg:'' (PACKAGES env))"
  have "toLowerCase [] = []" by (simp add: toLowerCase_def)
  then have r: "handleSearchPackages [] env = Response 200 (SearchJson ?all)"
    by (simp add: search_results filter_search_empty)
  have "length ?all = length (kv_list ''pkg:'' (PACKAGES env))"
    by (rule length_map_filter_total) (simp add: kv_get_listed)
  then have l: "length ?all = min 1000 (length (keys_with_prefix ''pkg:'' (PACKAGES env)))"
    by (simp only: length_kv_list_eq)
  from r l listed_records_subset [of env] show ?thesis by blast
qed

text \<open>The store of 1001 packages: names and keys are distinct.\<close>

lemma big_name_inj: "big_name i = big_name j \<longleftrightarrow> i = j"
proof
  assume e: "big_name i = big_name j"
  have t: "takeWhile (\<lambda>c. c = CHR ''a'') (big_name k) = replicate (Suc (k div 32)) CHR ''a''" for k
    unfolding big_name_def by (subst takeWhile_append2) auto
  from e have "takeWhile (\<lambda>c. c = CHR ''a'') (big_name i) = takeWhile (\<lambda>c. c = CHR ''a'') (big_name j)"
    by simp
  then have "length (replicate (Suc (i div 32)) CHR ''a'') = length (replicate (Suc (j div 32)) CHR ''a'')"
    by (simp only: t)
  then have d: "i div 32 = j div 32" by simp
  from e have "length (big_name i) = length (big_name j)" by simp
  with d have m: "i mod 32 = j mod 32" by (simp add: big_name_def)
  from d m show "i = j" by (metis div_mult_mod_eq)
qed simp

lemma big_pkg_inj: "big_pkg i = big_pkg j \<longleftrightarrow> i = j"
proof
  assume "big_pkg i = big_pkg j"
  then have "name (big_pkg i) = name (big_pkg j)" by simp
  then show "i = j" by (simp add: big_pkg_def big_name_inj)
qed simp

lemma big_keys_distinct: "distinct (map (\<lambda>i. ''pkg:'' @ big_name i) [0..<n])"
  by (simp add: distinct_map inj_on_def big_name_inj)

lemma big_kv_get:
  "i < n \<Longrightarrow> kv_get (big_store n) (''pkg:'' @ big_name i) = Some (big_pkg i)"
proof -
  have "i \<in> set xs \<Longrightarrow>
     map_of (map (\<lambda>i. (''pkg:'' @ big_name i, big_pkg i)) xs) (''pkg:'' @ big_name i)
       = Some (big_pkg i)" for xs
    by (induction xs) (auto simp: big_name_inj)
  from this [of "[0..<n]"] show "i < n \<Longrightarrow> ?thesis"
    by (simp add: kv_get_def big_store_def)
qed

lemma big_keys: "keys_with_prefix ''pkg:'' (big_store n) = map (\<lambda>i. ''pkg:'' @ big_name i) [0..<n]"
proof -
  let ?k = "\<lambda>i. ''pkg:'' @ big_name i"
  have "map fst (big_store n) = map ?k [0..<n]"
    by (simp add: big_store_def comp_def)
  moreover have "filter (\<lambda>k. starts_with k ''pkg:'') (map ?k [0..<n]) = map ?k [0..<n]"
    by (simp add: filter_map comp_def)
  ultimately show ?thesis
    unfolding keys_with_prefix_def using big_keys_distinct [of n]
    by (simp only: distinct_remdups_id)
qed

lemma big_stored: "stored_packages (env\<lparr>PACKAGES := big_store n\<rparr>) = big_pkg ` {0..<n}"
proof
  show "stored_packages (env\<lparr>PACKAGES := big_store n\<rparr>) \<subseteq> big_pkg ` {0..<n}"
  proof
    fix m
    assume "m \<in> stored_packages (env\<lparr>PACKAGES := big_store n\<rparr>)"
    then obtain k where "map_of (big_store n) k = Some m"
      by (auto simp: stored_packages_def kv_get_def)
    then have "(k, m) \<in> set (big_store n)" by (rule map_of_SomeD)
    then show "m \<in> big_pkg ` {0..<n}" by (auto simp: big_store_def)
  qed
next
  show "big_pkg ` {0..<n} \<subseteq> stored_packages (env\<lparr>PACKAGES := big_store n\<rparr>)"
  proof
    fix m
    assume "m \<in> big_pkg ` {0..<n}"
    then obtain i where i: "i < n" "m = big_pkg i" by auto
    have "starts_with (''pkg:'' @ big_name i) ''pkg:''" by simp
    moreover have "kv_get (big_store n) (''pkg:'' @ big_name i) = Some m"
      using i by (simp only: big_kv_get)
    ultimately show "m \<in> stored_packages (env\<lparr>PACKAGES := big_store n\<rparr>)"
      unfolding stored_packages_def by (simp del: starts_with.simps append.simps) blast
  qed
qed

lemma card_big_stored: "card (stored_packages (env\<lparr>PACKAGES := big_store n\<rparr>)) = n"
proof -
  have "inj_on big_pkg {0..<n}" by (simp add: inj_on_def big_pkg_inj)
  then show ?thesis by (simp add: big_stored card_image)
qed

text \<open>
  C9 does not hold of the handler: the store holds 1001 packages, the empty query matches
  each of them, and the search returns the 1000 records of the first page of keys; a
  package that is stored and matches is not returned.
\<close>

theorem search_misses_beyond_first_page:
  "card (stored_packages big_env) = 1001
   \<and> {m \<in> stored_packages big_env.
        substring_of (toLowerCase []) (toLowerCase (name m))} = stored_packages big_env
   \<and> (\<exists>results. handleSearchPackages [] big_env = Response 200 (SearchJson results)
         \<and> length results = 1000
         \<and> (\<exists>m\<in>stored_packages big_env. m \<notin> set results))"
proof -
  have E: "big_env = big_env\<lparr>PACKAGES := big_store 1001\<rparr>" by (simp add: big_env_def)
  have P: "PACKAGES big_env = big_store 1001" by (simp add: big_env_def)
  have c: "card (stored_packages big_env) = 1001"
    using card_big_stored [where env = big_env and n = 1001] by (simp only: E [symmetric])
  have a: "{m \<in> stored_packages big_env.
        substring_of (toLowerCase []) (toLowerCase (name m))} = stored_packages big_env"
    by (simp add: toLowerCase_def substring_of_empty)
  have "length (keys_with_prefix ''pkg:'' (PACKAGES big_env)) = 1001"
    by (simp only: P big_keys length_map length_upt diff_zero)
  with search_empty_length [of big_env] obtain results where
    r: "handleSearchPackages [] big_env = Response 200 (SearchJson results)"
    and l: "length results = 1000" and s: "set results \<subseteq> stored_packages big_env"
    by auto
  have "card (set results) \<le> length results" by (rule card_length)
  with l c have "set results \<noteq> stored_packages big_env" by auto
  with s have "\<exists>m\<in>stored_packages big_env. m \<notin> set results" by blast
  with r l have "\<exists>results. handleSearchPackages [] big_env = Response 200 (SearchJson results)
         \<and> length results = 1000
         \<and> (\<exists>m\<in>stored_packages big_env. m \<notin> set results)" by blast
  with c a show ?thesis by (intro conjI)
qed

subsection \<open>Yanking and listing\<close>

lemma map_version_set_yanked: "map version (set_yanked ver y vs) = map version vs"
  by (induction vs) auto

lemma find_set_yanked:
  "find (\<lambda>x. version x = ver) (set_yanked ver y vs)
     = map_option (\<lambda>v. v\<lparr>yanked := y\<rparr>) (find (\<lambda>x. version x = ver) vs)"
  by (induction vs) auto

lemma set_yanked_frame:
  "list_all2 (\<lambda>old new. new = old\<lparr>yanked := yanked new\<rparr> \<and> (version old \<noteq> ver \<longrightarrow> new = old))
     vs (set_yanked ver y vs)"
  by (induction vs) (auto simp: list_all2_same)

lemma find_distinct_version:
  assumes "v \<in> set vs" "distinct (map version vs)"
  shows "find (\<lambda>x. version x = version v) vs = Some v"
proof (rule find_unique)
  show "v \<in> set vs" by (rule assms(1))
  show "version v = version v" by simp
  show "\<forall>y\<in>set vs. version y = version v \<longrightarrow> y = v"
    using assms by (meson distinct_map inj_onD)
qed

lemma yank_200:
  assumes "handleYankVersion n ver yank clk req env = (resp, env')" "status resp = 200"
  shows "\<exists>m vi. kv_get (PACKAGES env) (''pkg:'' @ n) = Some m
     \<and> find (\<lambda>v. version v = ver) (versions m) = Some vi
     \<and> env' = env\<lparr>PACKAGES := kv_put (''pkg:'' @ n)
                (m\<lparr>versions := set_yanked ver yank (versions m),
                   updated_at := now_updated_at clk\<rparr>) (PACKAGES env)\<rparr>"
proof (cases "authenticate clk req env")
  case (Inl e)
  then have "status e = 401" by (rule authenticate_Inl)
  moreover from Inl assms(1) have "resp = e" by (simp add: handleYankVersion_def)
  ultimately show ?thesis using assms(2) by simp
next
  case (Inr user)
  show ?thesis
    using assms unfolding handleYankVersion_def Inr
    by (auto simp: status_errorResponse split: option.splits if_splits)
qed

lemma download_yanked:
  assumes "kv_get (PACKAGES env) (''pkg:'' @ n) = Some m"
    and "find (\<lambda>x. version x = ver) (versions m) = Some vi" and "yanked vi"
  shows "handleDownloadPackage n ver env =
           errorResponse (''Version '' @ [CHR 0x27] @ ver @ [CHR 0x27] @ '' has been yanked'') 410"
  using assms by (simp add: handleDownloadPackage_def)

lemma foldl_collect_all:
  "foldl (\<lambda>acc key. case get key of None \<Rightarrow> acc | Some m \<Rightarrow> acc @ [f m]) acc keys
     = acc @ map f (List.map_filter get keys)"
  by (induction keys arbitrary: acc) (auto split: option.splits)

lemma list_results:
  "handleListPackages env = Response 200 (ListJson
     (map listing_of
        (List.map_filter (kv_get (PACKAGES env)) (kv_list ''pkg:'' (PACKAGES env)))))"
proof -
  have l: "listing_of = (\<lambda>m. \<lparr>l_name = name m, l_description = description m,
                               l_latest = latest_of m\<rparr>)"
    by (rule ext) (simp add: listing_of_def)
  show ?thesis
    unfolding l
    using foldl_collect_all [where get = "kv_get (PACKAGES env)"
        and f = "\<lambda>m. \<lparr>l_name = name m, l_description = description m, l_latest = latest_of m\<rparr>"
        and acc = "[]"]
    by (simp add: handleListPackages_def Let_def)
qed

text \<open>
  The listing holds entries of stored packages, and of all of them when the store has at
  most 1000 package keys.
\<close>

lemma listing_entries:
  "\<exists>ls. handleListPackages env = Response 200 (ListJson ls)
     \<and> set ls \<subseteq> listing_of ` stored_packages env
     \<and> (length (keys_with_prefix ''pkg:'' (PACKAGES env)) \<le> 1000 \<longrightarrow>
          set ls = listing_of ` stored_packages env)"
proof -
  let ?all = "List.map_filter (kv_get (PACKAGES env)) (kv_list ''pkg:'' (PACKAGES env))"
  have r: "handleListPackages env = Response 200 (ListJson (map listing_of ?all))"
    by (rule list_results)
  have s: "set (map listing_of ?all) \<subseteq> listing_of ` stored_packages env"
    using listed_records_subset [of env] by auto
  have e: "set (map listing_of ?all) = listing_of ` stored_packages env"
    if "length (keys_with_prefix ''pkg:'' (PACKAGES env)) \<le> 1000"
    by (simp only: list.set_map listed_records_page [OF that])
  from r s e show ?thesis by blast
qed

text \<open>The latest version is that of the first record that is not yanked.\<close>

lemma latest_of_first:
  assumes "versions m = ys @ u # zs" "\<forall>y\<in>set ys. yanked y" "\<not> yanked u" "version u \<noteq> []"
  shows "latest_of m = version u"
proof -
  have "find (\<lambda>v. \<not> yanked v) (ys @ u # zs) = Some u"
    using assms(2,3) by (induction ys) auto
  with assms(1,4) show ?thesis by (simp add: latest_of_def)
qed

lemma latest_of_cases:
  "latest_of m = ''none'' \<or> (\<exists>u\<in>set (versions m). \<not> yanked u \<and> version u = latest_of m)"
proof (cases "find (\<lambda>v. \<not> yanked v) (versions m)")
  case None
  then show ?thesis by (simp add: latest_of_def)
next
  case (Some u)
  then have "u \<in> set (versions m)" "\<not> yanked u"
    by (auto simp: find_Some_iff)
  with Some show ?thesis by (auto simp: latest_of_def)
qed

lemma latest_of_all_yanked: "\<forall>u\<in>set (versions m). yanked u \<Longrightarrow> latest_of m = ''none''"
proof -
  assume "\<forall>u\<in>set (versions m). yanked u"
  then have "find (\<lambda>v. \<not> yanked v) (versions m) = None" by (simp add: find_None_iff)
  then show ?thesis by (simp add: latest_of_def)
qed

text \<open>
  C6: for a stored package (version strings distinct) and a version record with
  \<open>yanked = true\<close>, the download answers 410 with the yanked message, not 404, and the
  latest version of the package is not that version; after a yank that answered 200 the
  record is still in the version list, with \<open>yanked = true\<close>, and its download answers
  410; every entry of the listing is the entry of a stored package, whose latest version
  is that of the first record that is not yanked, or \<open>none\<close> when all are yanked.
\<close>

theorem yanked_gone_not_hidden:
  "(kv_get (PACKAGES env) (''pkg:'' @ n) = Some m \<and> v \<in> set (versions m) \<and> yanked v
      \<and> distinct (map version (versions m)) \<longrightarrow>
      handleDownloadPackage n (version v) env =
        errorResponse (''Version '' @ [CHR 0x27] @ version v @ [CHR 0x27] @ '' has been yanked'') 410
      \<and> (version v \<noteq> ''none'' \<longrightarrow> latest_of m \<noteq> version v))
   \<and> (handleYankVersion n ver True clk req env = (resp, env') \<and> status resp = 200 \<longrightarrow>
        (\<exists>m0 m1 v1. kv_get (PACKAGES env) (''pkg:'' @ n) = Some m0
           \<and> kv_get (PACKAGES env') (''pkg:'' @ n) = Some m1
           \<and> map version (versions m1) = map version (versions m0)
           \<and> find (\<lambda>x. version x = ver) (versions m1) = Some v1 \<and> yanked v1
           \<and> status (handleDownloadPackage n ver env') = 410))
   \<and> (\<exists>ls. handleListPackages env = Response 200 (ListJson ls)
         \<and> set ls \<subseteq> listing_of ` stored_packages env
         \<and> (length (keys_with_prefix ''pkg:'' (PACKAGES env)) \<le> 1000 \<longrightarrow>
              set ls = listing_of ` stored_packages env))
   \<and> (versions m = ys @ u # zs \<and> (\<forall>y\<in>set ys. yanked y) \<and> \<not> yanked u \<and> version u \<noteq> []
        \<longrightarrow> latest_of m = version u)
   \<and> ((\<forall>u\<in>set (versions m). yanked u) \<longrightarrow> latest_of m = ''none'')"
proof -
  have a: "handleDownloadPackage n (version v) env =
        errorResponse (''Version '' @ [CHR 0x27] @ version v @ [CHR 0x27] @ '' has been yanked'') 410
      \<and> (version v \<noteq> ''none'' \<longrightarrow> latest_of m \<noteq> version v)"
    if h: "kv_get (PACKAGES env) (''pkg:'' @ n) = Some m \<and> v \<in> set (versions m) \<and> yanked v
      \<and> distinct (map version (versions m))"
  proof
    from h have f: "find (\<lambda>x. version x = version v) (versions m) = Some v"
      by (simp add: find_distinct_version)
    from h show "handleDownloadPackage n (version v) env =
        errorResponse (''Version '' @ [CHR 0x27] @ version v @ [CHR 0x27] @ '' has been yanked'') 410"
      by (intro download_yanked [OF _ f]) simp_all
    show "version v \<noteq> ''none'' \<longrightarrow> latest_of m \<noteq> version v"
    proof
      assume nn: "version v \<noteq> ''none''"
      show "latest_of m \<noteq> version v"
      proof
        assume eq: "latest_of m = version v"
        with nn latest_of_cases [of m] obtain u where
          u: "u \<in> set (versions m)" "\<not> yanked u" "version u = version v" by auto
        from h u(1,3) have "u = v" by (meson distinct_map inj_onD)
        with u(2) h show False by simp
      qed
    qed
  qed
  have b: "\<exists>m0 m1 v1. kv_get (PACKAGES env) (''pkg:'' @ n) = Some m0
           \<and> kv_get (PACKAGES env') (''pkg:'' @ n) = Some m1
           \<and> map version (versions m1) = map version (versions m0)
           \<and> find (\<lambda>x. version x = ver) (versions m1) = Some v1 \<and> yanked v1
           \<and> status (handleDownloadPackage n ver env') = 410"
    if h: "handleYankVersion n ver True clk req env = (resp, env') \<and> status resp = 200"
  proof -
    from h have h1: "handleYankVersion n ver True clk req env = (resp, env')"
      and h2: "status resp = 200" by simp_all
    from yank_200 [OF h1 h2] obtain m0 vi where
      m0: "kv_get (PACKAGES env) (''pkg:'' @ n) = Some m0"
      and vi: "find (\<lambda>v. version v = ver) (versions m0) = Some vi"
      and e: "env' = env\<lparr>PACKAGES := kv_put (''pkg:'' @ n)
                (m0\<lparr>versions := set_yanked ver True (versions m0),
                   updated_at := now_updated_at clk\<rparr>) (PACKAGES env)\<rparr>" by blast
    let ?m1 = "m0\<lparr>versions := set_yanked ver True (versions m0), updated_at := now_updated_at clk\<rparr>"
    have m1: "kv_get (PACKAGES env') (''pkg:'' @ n) = Some ?m1" by (simp add: e kv_get_put)
    have mv: "map version (versions ?m1) = map version (versions m0)"
      by (simp add: map_version_set_yanked)
    have f1: "find (\<lambda>x. version x = ver) (versions ?m1) = Some (vi\<lparr>yanked := True\<rparr>)"
      by (simp add: find_set_yanked vi)
    have y1: "yanked (vi\<lparr>yanked := True\<rparr>)" by simp
    have "status (handleDownloadPackage n ver env') = 410"
      using download_yanked [OF m1 f1 y1] by (simp add: status_errorResponse)
    with m0 m1 mv f1 y1 show ?thesis by blast
  qed
  have d: "(\<forall>u\<in>set (versions m). yanked u) \<longrightarrow> latest_of m = ''none''"
    using latest_of_all_yanked by blast
  have f: "versions m = ys @ u # zs \<and> (\<forall>y\<in>set ys. yanked y) \<and> \<not> yanked u \<and> version u \<noteq> []
        \<longrightarrow> latest_of m = version u"
    using latest_of_first [of m ys u zs] by blast
  from a have a': "kv_get (PACKAGES env) (''pkg:'' @ n) = Some m \<and> v \<in> set (versions m) \<and> yanked v
      \<and> distinct (map version (versions m)) \<longrightarrow>
      handleDownloadPackage n (version v) env =
        errorResponse (''Version '' @ [CHR 0x27] @ version v @ [CHR 0x27] @ '' has been yanked'') 410
      \<and> (version v \<noteq> ''none'' \<longrightarrow> latest_of m \<noteq> version v)"
    by (intro impI) (rule a)
  from b have b': "handleYankVersion n ver True clk req env = (resp, env') \<and> status resp = 200 \<longrightarrow>
        (\<exists>m0 m1 v1. kv_get (PACKAGES env) (''pkg:'' @ n) = Some m0
           \<and> kv_get (PACKAGES env') (''pkg:'' @ n) = Some m1
           \<and> map version (versions m1) = map version (versions m0)
           \<and> find (\<lambda>x. version x = ver) (versions m1) = Some v1 \<and> yanked v1
           \<and> status (handleDownloadPackage n ver env') = 410)"
    by (intro impI) (rule b)
  note facts = a' b' listing_entries [of env] f d
  show ?thesis by (intro conjI; rule facts)
qed

theorem yanked_gone_not_hidden_witness:
  "handleDownloadPackage ''json-lib'' ''2.0.0'' env0
       = errorResponse (''Version '' @ [CHR 0x27] @ ''2.0.0'' @ [CHR 0x27] @ '' has been yanked'') 410
   \<and> latest_of json_lib = ''1.0.0''
   \<and> status (fst (handleYankVersion ''json-lib'' ''1.0.0'' True (example_clock ''2025-06-01'')
        (auth_request ''tok-alice'') env0)) = 200
   \<and> (\<exists>m1 v1. kv_get (PACKAGES (snd (handleYankVersion ''json-lib'' ''1.0.0'' True
           (example_clock ''2025-06-01'') (auth_request ''tok-alice'') env0))) ''pkg:json-lib'' = Some m1
         \<and> map version (versions m1) = [''2.0.0'', ''1.0.0'']
         \<and> find (\<lambda>x. version x = ''1.0.0'') (versions m1) = Some v1 \<and> yanked v1)
   \<and> status (handleDownloadPackage ''json-lib'' ''1.0.0''
        (snd (handleYankVersion ''json-lib'' ''1.0.0'' True (example_clock ''2025-06-01'')
           (auth_request ''tok-alice'') env0))) = 410
   \<and> handleListPackages env0 = Response 200 (ListJson
        [\<lparr>l_name = ''http-kit'', l_description = ''HTTP client'', l_latest = ''1.0.0''\<rparr>,
         \<lparr>l_name = ''json-lib'', l_description = ''A JSON Parser'', l_latest = ''1.0.0''\<rparr>])
   \<and> handleListPackages (snd (handleYankVersion ''json-lib'' ''1.0.0'' True
        (example_clock ''2025-06-01'') (auth_request ''tok-alice'') env0)) = Response 200 (ListJson
        [\<lparr>l_name = ''http-kit'', l_description = ''HTTP client'', l_latest = ''1.0.0''\<rparr>,
         \<lparr>l_name = ''json-lib'', l_description = ''A JSON Parser'', l_latest = ''none''\<rparr>])"
proof -
  let ?y = "handleYankVersion ''json-lib'' ''1.0.0'' True (example_clock ''2025-06-01'')
      (auth_request ''tok-alice'') env0"
  note inst = yanked_gone_not_hidden [where env = env0 and n = "''json-lib''" and m = json_lib
      and v = json_lib_2 and ver = "''1.0.0''" and clk = "example_clock ''2025-06-01''"
      and req = "auth_request ''tok-alice''" and resp = "fst ?y" and env' = "snd ?y"
      and ys = "[json_lib_2]" and u = json_lib_1 and zs = "[]"]
  have h: "kv_get (PACKAGES env0) (''pkg:'' @ ''json-lib'') = Some json_lib
      \<and> json_lib_2 \<in> set (versions json_lib) \<and> yanked json_lib_2
      \<and> distinct (map version (versions json_lib))"
    by (simp add: env0_def kv_get_def json_lib_def json_lib_2_def json_lib_1_def)
  have v: "version json_lib_2 = ''2.0.0''" by (simp add: json_lib_2_def)
  from inst h have "handleDownloadPackage ''json-lib'' (version json_lib_2) env0 =
        errorResponse (''Version '' @ [CHR 0x27] @ version json_lib_2 @ [CHR 0x27] @ '' has been yanked'') 410"
    by blast
  then have c1: "handleDownloadPackage ''json-lib'' ''2.0.0'' env0
       = errorResponse (''Version '' @ [CHR 0x27] @ ''2.0.0'' @ [CHR 0x27] @ '' has been yanked'') 410"
    by (simp only: v)
  have l: "versions json_lib = [json_lib_2] @ json_lib_1 # [] \<and> (\<forall>y\<in>set [json_lib_2]. yanked y)
      \<and> \<not> yanked json_lib_1 \<and> version json_lib_1 \<noteq> []"
    by (simp add: json_lib_def json_lib_2_def json_lib_1_def)
  from inst l have "latest_of json_lib = version json_lib_1" by blast
  then have c2: "latest_of json_lib = ''1.0.0''" by (simp add: json_lib_1_def)
  have y1: "?y = (fst ?y, snd ?y)" by simp
  have y2: "status (fst ?y) = 200" by code_simp
  have k0: "kv_get (PACKAGES env0) ''pkg:json-lib'' = Some json_lib" by code_simp
  have mv: "map version (versions json_lib) = [''2.0.0'', ''1.0.0'']" by code_simp
  from inst y1 y2 obtain m0 m1 v1 where
    "kv_get (PACKAGES env0) (''pkg:'' @ ''json-lib'') = Some m0"
    "kv_get (PACKAGES (snd ?y)) (''pkg:'' @ ''json-lib'') = Some m1"
    "map version (versions m1) = map version (versions m0)"
    "find (\<lambda>x. version x = ''1.0.0'') (versions m1) = Some v1" "yanked v1"
    and c4: "status (handleDownloadPackage ''json-lib'' ''1.0.0'' (snd ?y)) = 410"
    by blast
  with k0 mv have c3: "\<exists>m1 v1. kv_get (PACKAGES (snd ?y)) ''pkg:json-lib'' = Some m1
         \<and> map version (versions m1) = [''2.0.0'', ''1.0.0'']
         \<and> find (\<lambda>x. version x = ''1.0.0'') (versions m1) = Some v1 \<and> yanked v1"
    by auto
  have c5: "handleListPackages env0 = Response 200 (ListJson
        [\<lparr>l_name = ''http-kit'', l_description = ''HTTP client'', l_latest = ''1.0.0''\<rparr>,
         \<lparr>l_name = ''json-lib'', l_description = ''A JSON Parser'', l_latest = ''1.0.0''\<rparr>])"
    by code_simp
  have c6: "handleListPackages (snd ?y) = Response 200 (ListJson
        [\<lparr>l_name = ''http-kit'', l_description = ''HTTP client'', l_latest = ''1.0.0''\<rparr>,
         \<lparr>l_name = ''json-lib'', l_description = ''A JSON Parser'', l_latest = ''none''\<rparr>])"
    by code_simp
  from c1 c2 y2 c3 c4 c5 c6 show ?thesis by (intro conjI)
qed

text \<open>
  C7, amended: an unyank that answers 200 sets \<open>yanked\<close> of the version to false, changes
  no other field of any version record, no field of the package record other than
  \<open>updated_at\<close> (set to the time of the unyank), no other package and nothing else of
  the environment.
\<close>

theorem unyank_frame:
  assumes "handleYankVersion n ver False clk req env = (resp, env')" and "status resp = 200"
  shows "\<exists>m m'. kv_get (PACKAGES env) (''pkg:'' @ n) = Some m
     \<and> kv_get (PACKAGES env') (''pkg:'' @ n) = Some m'
     \<and> m' = m\<lparr>versions := versions m', updated_at := now_updated_at clk\<rparr>
     \<and> list_all2 (\<lambda>old new. new = old\<lparr>yanked := yanked new\<rparr> \<and> (version old \<noteq> ver \<longrightarrow> new = old))
          (versions m) (versions m')
     \<and> (\<exists>v'. find (\<lambda>x. version x = ver) (versions m') = Some v' \<and> \<not> yanked v')
     \<and> (\<forall>k. k \<noteq> ''pkg:'' @ n \<longrightarrow> kv_get (PACKAGES env') k = kv_get (PACKAGES env) k)
     \<and> USERS env' = USERS env \<and> TOKENS env' = TOKENS env \<and> TARBALLS env' = TARBALLS env
     \<and> ADMIN_TOKEN env' = ADMIN_TOKEN env"
proof -
  from yank_200 [OF assms] obtain m vi where
    m: "kv_get (PACKAGES env) (''pkg:'' @ n) = Some m"
    and vi: "find (\<lambda>v. version v = ver) (versions m) = Some vi"
    and e: "env' = env\<lparr>PACKAGES := kv_put (''pkg:'' @ n)
                (m\<lparr>versions := set_yanked ver False (versions m),
                   updated_at := now_updated_at clk\<rparr>) (PACKAGES env)\<rparr>" by blast
  let ?m' = "m\<lparr>versions := set_yanked ver False (versions m), updated_at := now_updated_at clk\<rparr>"
  have m': "kv_get (PACKAGES env') (''pkg:'' @ n) = Some ?m'" by (simp add: e kv_get_put)
  have eq: "?m' = m\<lparr>versions := versions ?m', updated_at := now_updated_at clk\<rparr>" by simp
  have fr: "list_all2 (\<lambda>old new. new = old\<lparr>yanked := yanked new\<rparr> \<and> (version old \<noteq> ver \<longrightarrow> new = old))
          (versions m) (versions ?m')"
    using set_yanked_frame [of ver "versions m" False] by simp
  have f: "\<exists>v'. find (\<lambda>x. version x = ver) (versions ?m') = Some v' \<and> \<not> yanked v'"
    by (simp add: find_set_yanked vi)
  have o: "\<forall>k. k \<noteq> ''pkg:'' @ n \<longrightarrow> kv_get (PACKAGES env') k = kv_get (PACKAGES env) k"
    by (simp add: e kv_get_put)
  have r: "USERS env' = USERS env \<and> TOKENS env' = TOKENS env \<and> TARBALLS env' = TARBALLS env
     \<and> ADMIN_TOKEN env' = ADMIN_TOKEN env" by (simp add: e)
  show ?thesis
    apply (rule exI [of _ m], rule exI [of _ ?m'])
    using m m' eq fr f o r by (intro conjI) blast+
qed

text \<open>
  C7, as stated, fails: the unyank of \<open>json-lib 2.0.0\<close> by its owner changes the package
  record's \<open>updated_at\<close>.
\<close>

theorem unyank_touches_updated_at_counterexample:
  "status (fst (handleYankVersion ''json-lib'' ''2.0.0'' False (example_clock ''2025-06-01'')
      (auth_request ''tok-alice'') env0)) = 200
   \<and> map_option updated_at (kv_get (PACKAGES env0) ''pkg:json-lib'') = Some ''2024-02-01''
   \<and> map_option updated_at (kv_get (PACKAGES
        (snd (handleYankVersion ''json-lib'' ''2.0.0'' False (example_clock ''2025-06-01'')
           (auth_request ''tok-alice'') env0))) ''pkg:json-lib'') = Some ''2025-06-01''"
  by code_simp

theorem unyank_frame_witness:
  "status (fst (handleYankVersion ''json-lib'' ''2.0.0'' False (example_clock ''2025-06-01'')
      (auth_request ''tok-alice'') env0)) = 200
   \<and> (\<exists>m'. kv_get (PACKAGES
        (snd (handleYankVersion ''json-lib'' ''2.0.0'' False (example_clock ''2025-06-01'')
           (auth_request ''tok-alice'') env0))) ''pkg:json-lib'' = Some m'
        \<and> m' = json_lib\<lparr>versions := versions m', updated_at := ''2025-06-01''\<rparr>
        \<and> (\<exists>v'. find (\<lambda>x. version x = ''2.0.0'') (versions m') = Some v' \<and> \<not> yanked v'))"
proof -
  let ?y = "handleYankVersion ''json-lib'' ''2.0.0'' False (example_clock ''2025-06-01'')
      (auth_request ''tok-alice'') env0"
  have h1: "?y = (fst ?y, snd ?y)" by simp
  have h2: "status (fst ?y) = 200" by code_simp
  have k: "kv_get (PACKAGES env0) (''pkg:'' @ ''json-lib'') = Some json_lib" by code_simp
  have c: "now_updated_at (example_clock ''2025-06-01'') = ''2025-06-01''"
    by (simp add: example_clock_def)
  from unyank_frame [OF h1 h2] k c
  have "\<exists>m'. kv_get (PACKAGES (snd ?y)) ''pkg:json-lib'' = Some m'
        \<and> m' = json_lib\<lparr>versions := versions m', updated_at := ''2025-06-01''\<rparr>
        \<and> (\<exists>v'. find (\<lambda>x. version x = ''2.0.0'') (versions m') = Some v' \<and> \<not> yanked v')"
    by auto
  with h2 show ?thesis by simp
qed

subsection \<open>The version strings of a package stay distinct\<close>

text \<open>
  Publishing refuses a version string that is present, and yanking changes no version
  string: a version list without duplicates stays so under both handlers.
\<close>

lemma publish_keeps_versions_distinct:
  assumes "handlePublishPackage h clk r env = (resp, env')" and "status resp = 201"
    and "distinct (map version (versions_before env (requested_name r)))"
  shows "distinct (map version (versions_before env' (requested_name r)))"
proof -
  from publish_step [OF assms(1,2)] obtain m newV where
    m: "kv_get (PACKAGES env') (''pkg:'' @ requested_name r) = Some m"
    and vs: "versions m = js_sort (\<lambda>a b. compareVersions (version b) (version a))
                      (versions_before env (requested_name r) @ [newV])"
    and nv: "version newV = requested_version r"
    and nd: "requested_version r \<notin> version ` set (versions_before env (requested_name r))"
    by blast
  have "distinct (map version (versions m))"
    using assms(3) nd nv by (simp add: vs distinct_map_js_sort)
  with m show ?thesis by (simp add: versions_before_def)
qed

lemma yank_keeps_version_strings:
  assumes "handleYankVersion n ver yank clk req env = (resp, env')" and "status resp = 200"
  shows "map version (versions_before env' n) = map version (versions_before env n)"
proof -
  from yank_200 [OF assms] obtain m vi where
    m: "kv_get (PACKAGES env) (''pkg:'' @ n) = Some m"
    and "find (\<lambda>v. version v = ver) (versions m) = Some vi"
    and e: "env' = env\<lparr>PACKAGES := kv_put (''pkg:'' @ n)
                (m\<lparr>versions := set_yanked ver yank (versions m),
                   updated_at := now_updated_at clk\<rparr>) (PACKAGES env)\<rparr>" by blast
  have "kv_get (PACKAGES env') (''pkg:'' @ n)
      = Some (m\<lparr>versions := set_yanked ver yank (versions m), updated_at := now_updated_at clk\<rparr>)"
    by (simp add: e kv_get_put)
  with m show ?thesis by (simp add: versions_before_def map_version_set_yanked)
qed

end
